theory Spec2Isabelle
  imports Main
begin

section \<open>Rule handler: filter parsing, rule matching and action dispatch\<close>

text \<open>
  A shallow embedding of \<^verbatim>\<open>packages/rule-handler/src/rule.ts\<close>.

  JavaScript strings are modelled as \<^typ>\<open>string\<close>: a list of code units below 256
  (the Latin-1 range). A thrown exception or a rejected promise carries an \<open>error\<close>;
  a function that may throw returns \<open>error + 'a\<close>, with \<open>Inl\<close> for the throw.
\<close>

subsection \<open>Data model\<close>

datatype error = Error string

datatype RuleActionType = AddLabel | Archive | MarkAsRead | SendNotification

record RuleAction =
  action_type :: RuleActionType
  params :: "string list"

record Rule =
  rule_id :: string
  rule_userId :: string
  name :: string
  filter_text :: string
  actions :: "RuleAction list"
  description :: "string option"
  enabled :: bool
  createdAt :: nat
  updatedAt :: nat

text \<open>
  \<open>PubSubData\<close> is declared outside \<^verbatim>\<open>rule.ts\<close>; the only field that
  \<^verbatim>\<open>rule.ts\<close> reads is the optional \<^verbatim>\<open>id\<close>. The other attributes of an
  event, which the predicate classes consult, live in the extension of the record.
\<close>

record PubSubData =
  data_id :: "string option"

text \<open>
  JavaScript truthiness of an optional string, as tested by \<^verbatim>\<open>!data.id\<close>,
  \<^verbatim>\<open>!keyword.value\<close> and \<^verbatim>\<open>!searchFilter\<close>: \<^verbatim>\<open>undefined\<close> and the
  empty string are falsy, every other string is truthy.
\<close>

fun truthy :: "string option \<Rightarrow> bool" where
  "truthy None = False"
| "truthy (Some s) = (s \<noteq> [])"

subsection \<open>Sanitization: \<^verbatim>\<open>filter.replace(/\W\s":/g, '')\<close>\<close>

text \<open>
  \<^verbatim>\<open>\W\<close> is every code unit outside \<^verbatim>\<open>[A-Za-z0-9_]\<close>; \<^verbatim>\<open>\s\<close> is, below 256,
  tab, line feed, vertical tab, form feed, carriage return, space and no-break space.
\<close>

definition isWordChar :: "char \<Rightarrow> bool" where
  "isWordChar c =
     (let n = (of_char c :: nat)
      in (48 \<le> n \<and> n \<le> 57) \<or> (65 \<le> n \<and> n \<le> 90) \<or> n = 95 \<or> (97 \<le> n \<and> n \<le> 122))"

definition isSpaceChar :: "char \<Rightarrow> bool" where
  "isSpaceChar c =
     (let n = (of_char c :: nat)
      in (9 \<le> n \<and> n \<le> 13) \<or> n = 32 \<or> n = 160)"

text \<open>The regular expression matches exactly four consecutive code units.\<close>

definition strayMatch :: "char \<Rightarrow> char \<Rightarrow> char \<Rightarrow> char \<Rightarrow> bool" where
  "strayMatch a b c d =
     (\<not> isWordChar a \<and> isSpaceChar b \<and> c = CHR 0x22 \<and> d = CHR '':'')"

text \<open>
  The global replace scans from the left; after a match it continues behind the match,
  otherwise it keeps the current code unit and moves one position on.
\<close>

fun replaceStray :: "string \<Rightarrow> string" where
  "replaceStray (a # b # c # d # rest) =
     (if strayMatch a b c d then replaceStray rest
      else a # replaceStray (b # c # d # rest))"
| "replaceStray s = s"

text \<open>An occurrence of the pattern at position \<open>i\<close> of a text.\<close>

definition matchAt :: "string \<Rightarrow> nat \<Rightarrow> bool" where
  "matchAt s i =
     (i + 3 < length s \<and> strayMatch (s ! i) (s ! (i + 1)) (s ! (i + 2)) (s ! (i + 3)))"

definition hasStray :: "string \<Rightarrow> bool" where
  "hasStray s = list_ex (matchAt s) [0..<length s]"

subsection \<open>Tokens and predicates\<close>

text \<open>
  The tokenizer is the function \<^verbatim>\<open>parse\<close> of the package \<^verbatim>\<open>search-query-parser\<close>,
  called with the keywords \<^verbatim>\<open>subscription\<close>, \<^verbatim>\<open>content\<close>, \<^verbatim>\<open>is\<close>, \<^verbatim>\<open>type\<close>
  and \<^verbatim>\<open>tokenize: true\<close>. It is a parameter of the model: given the text, it throws
  or returns the \<^verbatim>\<open>offsets\<close> field of its result, which may be absent. An offset
  is a keyword offset (a keyword and an optional value) or a text offset.
\<close>

datatype offset =
  KeywordOffset (keyword: string) (keyword_value: "string option")
| TextOffset (offset_text: string)

type_synonym tokenizer = "string \<Rightarrow> error + offset list option"

datatype SearchFilter =
  SubscriptionFilter string
| ContentFilter string
| ReadFilter string

text \<open>\<^verbatim>\<open>'keyword' in offset\<close>\<close>

fun hasKeyword :: "offset \<Rightarrow> bool" where
  "hasKeyword (KeywordOffset k v) = True"
| "hasKeyword (TextOffset t) = False"

text \<open>
  The body of the loop over the keyword offsets: an offset without a truthy value is
  skipped, a keyword outside the four cases of the \<^verbatim>\<open>switch\<close> pushes nothing.
\<close>

fun pushFilter :: "offset \<Rightarrow> SearchFilter list \<Rightarrow> SearchFilter list" where
  "pushFilter (TextOffset t) result = result"
| "pushFilter (KeywordOffset k v) result =
     (case v of
        None \<Rightarrow> result
      | Some s \<Rightarrow>
          if s = [] then result
          else if k = ''subscription'' then result @ [SubscriptionFilter s]
          else if k = ''content'' then result @ [ContentFilter s]
          else if k = ''is'' then result @ [ReadFilter s]
          else if k = ''type'' then result @ [ReadFilter s]
          else result)"

fun pushFilters :: "offset list \<Rightarrow> SearchFilter list \<Rightarrow> SearchFilter list" where
  "pushFilters [] result = result"
| "pushFilters (k # ks) result = pushFilters ks (pushFilter k result)"

definition parseSearchFilter :: "tokenizer \<Rightarrow> string \<Rightarrow> error + SearchFilter list" where
  "parseSearchFilter parse flt =
     (let searchFilter = (if flt \<noteq> [] then Some (replaceStray flt) else None)
      in case searchFilter of
           None \<Rightarrow> Inr []
         | Some s \<Rightarrow>
             if s = [] \<or> s = ''*'' then Inr []
             else (case parse s of
                     Inl e \<Rightarrow> Inl e
                   | Inr None \<Rightarrow> Inr []
                   | Inr (Some offsets) \<Rightarrow> Inr (pushFilters (filter hasKeyword offsets) [])))"

subsection \<open>The rule matcher\<close>

text \<open>
  The predicate classes are declared outside \<^verbatim>\<open>rule.ts\<close>; their method
  \<^verbatim>\<open>isValid\<close> is a parameter of the model, which may throw.
  \<^verbatim>\<open>Array.prototype.every\<close> stops at the first predicate that returns false.
\<close>

fun every :: "('a \<Rightarrow> error + bool) \<Rightarrow> 'a list \<Rightarrow> error + bool" where
  "every p [] = Inr True"
| "every p (x # xs) =
     (case p x of
        Inl e \<Rightarrow> Inl e
      | Inr b \<Rightarrow> if b then every p xs else Inr False)"

text \<open>
  What a dispatch does to the outside world is recorded in a trace, in the order it
  happens: the request for a credential, the capability calls, and the lines written
  with \<^verbatim>\<open>console.log\<close> and \<^verbatim>\<open>console.debug\<close>.
\<close>

datatype capability_call =
  addLabels string string string "string list"
| archivePage string string string
| markPageAsRead string string string
| sendNotification string string string

datatype event =
  AuthRequested string string
| Invoked capability_call
| ConsoleLog string
| ConsoleDebug string

definition isValidData ::
  "tokenizer \<Rightarrow> (SearchFilter \<Rightarrow> 'a PubSubData_scheme \<Rightarrow> error + bool) \<Rightarrow>
   string \<Rightarrow> 'a PubSubData_scheme \<Rightarrow> event list \<Rightarrow> (error + bool) \<times> event list" where
  "isValidData parse isValid flt data tr =
     (case parseSearchFilter parse flt of
        Inl e \<Rightarrow> (Inl e, tr)
      | Inr searchFilters \<Rightarrow>
          if length searchFilters = 0
          then (Inr True, tr @ [ConsoleDebug ''no search filters found''])
          else (every (\<lambda>searchFilter. isValid searchFilter data) searchFilters, tr))"

text \<open>
  The same function over an explicit store, to speak of what an evaluation may change.
  The store holds the event objects (by reference), the rule objects and the console.
  \<^verbatim>\<open>isValidData\<close> gets the filter text, which is an immutable string, and a
  reference to the event; a predicate gets that reference and the store, and may read
  and write the store.
\<close>

record 'a store =
  eventObjects :: "nat \<Rightarrow> 'a PubSubData_scheme option"
  ruleObjects :: "Rule list"
  console :: "event list"

type_synonym 'a storePredicate =
  "SearchFilter \<Rightarrow> nat \<Rightarrow> 'a store \<Rightarrow> (error + bool) \<times> 'a store"

fun everyIn ::
  "('x \<Rightarrow> 's \<Rightarrow> (error + bool) \<times> 's) \<Rightarrow> 'x list \<Rightarrow> 's \<Rightarrow> (error + bool) \<times> 's" where
  "everyIn p [] s = (Inr True, s)"
| "everyIn p (x # xs) s =
     (case p x s of
        (Inl e, s') \<Rightarrow> (Inl e, s')
      | (Inr b, s') \<Rightarrow> if b then everyIn p xs s' else (Inr False, s'))"

definition isValidDataIn ::
  "tokenizer \<Rightarrow> 'a storePredicate \<Rightarrow> string \<Rightarrow> nat \<Rightarrow> 'a store \<Rightarrow> (error + bool) \<times> 'a store" where
  "isValidDataIn parse isValidIn flt data s =
     (case parseSearchFilter parse flt of
        Inl e \<Rightarrow> (Inl e, s)
      | Inr searchFilters \<Rightarrow>
          if length searchFilters = 0
          then (Inr True, s\<lparr>console := console s @ [ConsoleDebug ''no search filters found'']\<rparr>)
          else everyIn (\<lambda>searchFilter. isValidIn searchFilter data) searchFilters s)"

text \<open>A predicate that reads the event object and does nothing else.\<close>

definition readingPredicate ::
  "(SearchFilter \<Rightarrow> 'a PubSubData_scheme \<Rightarrow> error + bool) \<Rightarrow> 'a storePredicate" where
  "readingPredicate isValid searchFilter data s =
     (case eventObjects s data of
        None \<Rightarrow> (Inl (Error ''undefined event''), s)
      | Some d \<Rightarrow> (isValid searchFilter d, s))"

subsection \<open>The action dispatcher\<close>

text \<open>
  A promise is modelled by the way it settles: the time at which it settles and the
  value it is fulfilled with, or the error it is rejected with.
\<close>

datatype 'v promise = Promise (settledAt: nat) (outcome: "error + 'v")

text \<open>
  The capabilities \<^verbatim>\<open>addLabels\<close>, \<^verbatim>\<open>archivePage\<close>, \<^verbatim>\<open>markPageAsRead\<close> and
  \<^verbatim>\<open>sendNotification\<close> are declared outside \<^verbatim>\<open>rule.ts\<close>. They are a parameter
  of the model: given everything that happened before a call, and the call, the
  promise that the call returns. \<^verbatim>\<open>getAuthToken\<close> is a parameter as well.
\<close>

type_synonym 'v capabilities = "event list \<Rightarrow> capability_call \<Rightarrow> 'v promise"

text \<open>
  The two ways an action ends: \<^verbatim>\<open>console.log(message); return\<close>, which yields
  \<^verbatim>\<open>undefined\<close>, and \<^verbatim>\<open>return capability(...)\<close>, which yields the promise of
  the call.
\<close>

definition skipAction :: "string \<Rightarrow> event list \<Rightarrow> 'v promise option \<times> event list" where
  "skipAction message tr = (None, tr @ [ConsoleLog message])"

definition invoke ::
  "'v capabilities \<Rightarrow> capability_call \<Rightarrow> event list \<Rightarrow> 'v promise option \<times> event list" where
  "invoke capability c tr = (Some (capability tr c), tr @ [Invoked c])"

text \<open>The function mapped over \<^verbatim>\<open>rule.actions\<close>: the \<^verbatim>\<open>switch\<close> on the action type.\<close>

definition triggerAction ::
  "'v capabilities \<Rightarrow> string \<Rightarrow> string \<Rightarrow> 'a PubSubData_scheme \<Rightarrow> RuleAction \<Rightarrow>
   event list \<Rightarrow> 'v promise option \<times> event list" where
  "triggerAction capability apiEndpoint authToken data action tr =
     (case action_type action of
        AddLabel \<Rightarrow>
          (case data_id data of
             None \<Rightarrow> skipAction ''invalid data for add label action'' tr
           | Some pageId \<Rightarrow>
               if pageId = [] \<or> length (params action) = 0
               then skipAction ''invalid data for add label action'' tr
               else invoke capability (addLabels apiEndpoint authToken pageId (params action)) tr)
      | Archive \<Rightarrow>
          (case data_id data of
             None \<Rightarrow> skipAction ''invalid data for archive action'' tr
           | Some pageId \<Rightarrow>
               if pageId = []
               then skipAction ''invalid data for archive action'' tr
               else invoke capability (archivePage apiEndpoint authToken pageId) tr)
      | MarkAsRead \<Rightarrow>
          (case data_id data of
             None \<Rightarrow> skipAction ''invalid data for mark as read action'' tr
           | Some pageId \<Rightarrow>
               if pageId = []
               then skipAction ''invalid data for mark as read action'' tr
               else invoke capability (markPageAsRead apiEndpoint authToken pageId) tr)
      | SendNotification \<Rightarrow>
          invoke capability
            (sendNotification apiEndpoint authToken ''New page added to your feed'') tr)"

fun mapActions ::
  "'v capabilities \<Rightarrow> string \<Rightarrow> string \<Rightarrow> 'a PubSubData_scheme \<Rightarrow> RuleAction list \<Rightarrow>
   event list \<Rightarrow> 'v promise option list \<times> event list" where
  "mapActions capability apiEndpoint authToken data [] tr = ([], tr)"
| "mapActions capability apiEndpoint authToken data (action # rest) tr =
     (case triggerAction capability apiEndpoint authToken data action tr of
        (p, tr') \<Rightarrow>
          (case mapActions capability apiEndpoint authToken data rest tr' of
             (ps, tr'') \<Rightarrow> (p # ps, tr'')))"

text \<open>
  The function mapped over \<^verbatim>\<open>rules\<close>: \<^verbatim>\<open>undefined\<close> (here \<open>None\<close>) for a rule
  that does not match, the array of the results of its actions otherwise. An exception
  thrown by the matcher leaves the function.
\<close>

definition triggerRule ::
  "tokenizer \<Rightarrow> (SearchFilter \<Rightarrow> 'a PubSubData_scheme \<Rightarrow> error + bool) \<Rightarrow> 'v capabilities \<Rightarrow>
   string \<Rightarrow> string \<Rightarrow> 'a PubSubData_scheme \<Rightarrow> Rule \<Rightarrow> event list \<Rightarrow>
   (error + 'v promise option list option) \<times> event list" where
  "triggerRule parse isValid capability apiEndpoint authToken data rule tr =
     (case isValidData parse isValid (filter_text rule) data tr of
        (Inl e, tr') \<Rightarrow> (Inl e, tr')
      | (Inr valid, tr') \<Rightarrow>
          if \<not> valid then (Inr None, tr')
          else (case mapActions capability apiEndpoint authToken data (actions rule) tr' of
                  (ps, tr'') \<Rightarrow> (Inr (Some ps), tr'')))"

fun mapRules ::
  "tokenizer \<Rightarrow> (SearchFilter \<Rightarrow> 'a PubSubData_scheme \<Rightarrow> error + bool) \<Rightarrow> 'v capabilities \<Rightarrow>
   string \<Rightarrow> string \<Rightarrow> 'a PubSubData_scheme \<Rightarrow> Rule list \<Rightarrow> event list \<Rightarrow>
   (error + 'v promise option list option list) \<times> event list" where
  "mapRules parse isValid capability apiEndpoint authToken data [] tr = (Inr [], tr)"
| "mapRules parse isValid capability apiEndpoint authToken data (rule # rest) tr =
     (case triggerRule parse isValid capability apiEndpoint authToken data rule tr of
        (Inl e, tr') \<Rightarrow> (Inl e, tr')
      | (Inr x, tr') \<Rightarrow>
          (case mapRules parse isValid capability apiEndpoint authToken data rest tr' of
             (Inl e, tr'') \<Rightarrow> (Inl e, tr'')
           | (Inr xs, tr'') \<Rightarrow> (Inr (x # xs), tr'')))"

text \<open>
  \<^verbatim>\<open>Array.prototype.flat\<close> of depth one: an element that is an array is replaced by
  its elements, an element that is \<^verbatim>\<open>undefined\<close> stays.
\<close>

fun flat :: "'p option list option list \<Rightarrow> 'p option list" where
  "flat [] = []"
| "flat (None # xs) = None # flat xs"
| "flat (Some ys # xs) = ys @ flat xs"

text \<open>\<^verbatim>\<open>.filter((p) => p !== undefined)\<close>\<close>

fun filterDefined :: "'p option list \<Rightarrow> 'p list" where
  "filterDefined [] = []"
| "filterDefined (None # ps) = filterDefined ps"
| "filterDefined (Some p # ps) = p # filterDefined ps"

text \<open>
  \<^verbatim>\<open>Promise.all\<close>, called at the time \<open>now\<close>: when a promise of the list is rejected,
  the result is rejected with the error of the one that is rejected first (the leftmost
  of those when several are rejected at the same time), at that time; otherwise it is
  fulfilled with the values in the order of the list, when the last one is fulfilled.
\<close>

fun firstRejection :: "'v promise list \<Rightarrow> (nat \<times> error) option" where
  "firstRejection [] = None"
| "firstRejection (Promise t (Inr v) # ps) = firstRejection ps"
| "firstRejection (Promise t (Inl e) # ps) =
     (case firstRejection ps of
        None \<Rightarrow> Some (t, e)
      | Some (t', e') \<Rightarrow> if t' < t then Some (t', e') else Some (t, e))"

fun fulfilledValues :: "'v promise list \<Rightarrow> 'v list" where
  "fulfilledValues [] = []"
| "fulfilledValues (Promise t (Inr v) # ps) = v # fulfilledValues ps"
| "fulfilledValues (Promise t (Inl e) # ps) = fulfilledValues ps"

definition promiseAll :: "nat \<Rightarrow> 'v promise list \<Rightarrow> 'v list promise" where
  "promiseAll now ps =
     (case firstRejection ps of
        Some (t, e) \<Rightarrow> Promise (max now t) (Inl e)
      | None \<Rightarrow> Promise (foldr max (map settledAt ps) now) (Inr (fulfilledValues ps)))"

text \<open>
  \<^verbatim>\<open>triggerActions\<close> returns the promise of the asynchronous function, together with
  the trace of the call.
\<close>

definition triggerActions ::
  "(string \<Rightarrow> string \<Rightarrow> string promise) \<Rightarrow> tokenizer \<Rightarrow>
   (SearchFilter \<Rightarrow> 'a PubSubData_scheme \<Rightarrow> error + bool) \<Rightarrow> 'v capabilities \<Rightarrow>
   string \<Rightarrow> Rule list \<Rightarrow> 'a PubSubData_scheme \<Rightarrow> string \<Rightarrow> string \<Rightarrow>
   'v list promise \<times> event list" where
  "triggerActions getAuthToken parse isValid capability userId rules data apiEndpoint jwtSecret =
     (case getAuthToken userId jwtSecret of
        Promise t (Inl e) \<Rightarrow> (Promise t (Inl e), [AuthRequested userId jwtSecret])
      | Promise t (Inr authToken) \<Rightarrow>
          (case mapRules parse isValid capability apiEndpoint authToken data rules
                  [AuthRequested userId jwtSecret] of
             (Inl e, tr) \<Rightarrow> (Promise t (Inl e), tr)
           | (Inr actionPromises, tr) \<Rightarrow>
               (promiseAll t (filterDefined (flat actionPromises)), tr)))"

subsection \<open>Observations on a trace\<close>

text \<open>The promises of the capability calls recorded in a trace, in the order of the calls.\<close>

fun launched :: "'v capabilities \<Rightarrow> event list \<Rightarrow> event list \<Rightarrow> 'v promise list" where
  "launched capability before [] = []"
| "launched capability before (Invoked c # es) =
     capability before c # launched capability (before @ [Invoked c]) es"
| "launched capability before (e # es) = launched capability (before @ [e]) es"

fun isAuthRequest :: "event \<Rightarrow> bool" where
  "isAuthRequest (AuthRequested u s) = True"
| "isAuthRequest e = False"

fun isInvoked :: "event \<Rightarrow> bool" where
  "isInvoked (Invoked c) = True"
| "isInvoked e = False"

fun authOf :: "capability_call \<Rightarrow> string" where
  "authOf (addLabels apiEndpoint auth pageId labelIds) = auth"
| "authOf (archivePage apiEndpoint auth pageId) = auth"
| "authOf (markPageAsRead apiEndpoint auth pageId) = auth"
| "authOf (sendNotification apiEndpoint auth body) = auth"

subsection \<open>Example inputs\<close>

text \<open>
  Stand-ins for the parameters of the model, used to run it on concrete inputs. The
  example tokenizer knows three texts and returns any other text as one text offset;
  the example predicates accept the subscription \<^verbatim>\<open>X\<close> and the read state
  \<^verbatim>\<open>unread\<close> and nothing else.
\<close>

definition exampleParse :: tokenizer where
  "exampleParse s =
     (if s = ''is:unread'' then Inr (Some [KeywordOffset ''is'' (Some ''unread'')])
      else if s = ''type:unread'' then Inr (Some [KeywordOffset ''type'' (Some ''unread'')])
      else if s = ''subscription:X content:foo''
        then Inr (Some [KeywordOffset ''subscription'' (Some ''X''),
                        KeywordOffset ''content'' (Some ''foo'')])
      else Inr (Some [TextOffset s]))"

fun exampleIsValid :: "SearchFilter \<Rightarrow> PubSubData \<Rightarrow> error + bool" where
  "exampleIsValid (SubscriptionFilter v) data = Inr (v = ''X'')"
| "exampleIsValid (ContentFilter v) data = Inr False"
| "exampleIsValid (ReadFilter v) data = Inr (v = ''unread'')"

definition exampleData :: PubSubData where
  "exampleData = \<lparr>data_id = Some ''abc''\<rparr>"

text \<open>
  An example dispatch: two rules, the first of which matches the example event; a
  credential provider that succeeds and one that fails; capabilities of which the
  notification fails, and capabilities that all succeed.
\<close>

definition exampleRule :: "string \<Rightarrow> RuleAction list \<Rightarrow> Rule" where
  "exampleRule flt acts =
     \<lparr>rule_id = ''r'', rule_userId = ''u'', name = ''example'', filter_text = flt,
      actions = acts, description = None, enabled = True, createdAt = 0, updatedAt = 0\<rparr>"

definition exampleRules :: "Rule list" where
  "exampleRules =
     [exampleRule ''is:unread''
        [\<lparr>action_type = AddLabel, params = [''todo'']\<rparr>,
         \<lparr>action_type = SendNotification, params = []\<rparr>,
         \<lparr>action_type = Archive, params = []\<rparr>,
         \<lparr>action_type = MarkAsRead, params = []\<rparr>,
         \<lparr>action_type = AddLabel, params = []\<rparr>],
      exampleRule ''subscription:X content:foo''
        [\<lparr>action_type = SendNotification, params = []\<rparr>]]"

definition exampleAuth :: "string \<Rightarrow> string \<Rightarrow> string promise" where
  "exampleAuth u s = Promise 3 (Inr ''jwt'')"

definition failingAuth :: "string \<Rightarrow> string \<Rightarrow> string promise" where
  "failingAuth u s = Promise 3 (Inl (Error ''no credential''))"

fun exampleCapability :: "string capabilities" where
  "exampleCapability tr (sendNotification apiEndpoint auth body) =
     Promise 5 (Inl (Error ''notification failed''))"
| "exampleCapability tr c = Promise 8 (Inr ''ok'')"

definition okCapability :: "string capabilities" where
  "okCapability tr c = Promise 8 (Inr ''ok'')"

text \<open>Rules under which no capability is called.\<close>

definition quietRules :: "Rule list" where
  "quietRules =
     [exampleRule ''subscription:X content:foo''
        [\<lparr>action_type = SendNotification, params = []\<rparr>],
      exampleRule ''*'' [\<lparr>action_type = AddLabel, params = []\<rparr>]]"

text \<open>The trace of the example dispatch.\<close>

definition exampleTrace :: "event list" where
  "exampleTrace =
     [AuthRequested ''u'' ''secret'',
      Invoked (addLabels ''api'' ''jwt'' ''abc'' [''todo'']),
      Invoked (sendNotification ''api'' ''jwt'' ''New page added to your feed''),
      Invoked (archivePage ''api'' ''jwt'' ''abc''),
      Invoked (markPageAsRead ''api'' ''jwt'' ''abc''),
      ConsoleLog ''invalid data for add label action'']"



section \<open>Properties\<close>

subsection \<open>Sanitization\<close>

lemma hasStray_iff: "hasStray s = (\<exists>i. matchAt s i)"
  by (auto simp: hasStray_def list_ex_iff matchAt_def)

lemma matchAt_Suc: "matchAt (a # s) (Suc i) = matchAt s i"
  by (simp add: matchAt_def add.commute)

lemma hasStray_Cons: "hasStray (a # s) = (matchAt (a # s) 0 \<or> hasStray s)"
proof -
  have "(\<exists>i. matchAt (a # s) i) = (matchAt (a # s) 0 \<or> (\<exists>i. matchAt (a # s) (Suc i)))"
    by (metis not0_implies_Suc)
  then show ?thesis by (simp add: hasStray_iff matchAt_Suc)
qed

lemma matchAt_0: "matchAt (a # b # c # d # rest) 0 = strayMatch a b c d"
  by (simp add: matchAt_def)

lemma matchAt_append: "i + 3 < length s \<Longrightarrow> matchAt (s @ t) i = matchAt s i"
  by (simp add: matchAt_def nth_append)

lemma replaceStray_id: "\<not> hasStray s \<Longrightarrow> replaceStray s = s"
  by (induction s rule: replaceStray.induct) (auto simp: hasStray_Cons matchAt_0)

lemma replaceStray_nomatch:
  "\<not> matchAt (a # s) 0 \<Longrightarrow> replaceStray (a # s) = a # replaceStray s"
  by (cases "a # s" rule: replaceStray.cases) (auto simp: matchAt_0)

lemma replaceStray_word: "isWordChar a \<Longrightarrow> replaceStray (a # s) = a # replaceStray s"
  by (rule replaceStray_nomatch) (simp add: matchAt_def strayMatch_def)

text \<open>The leftmost occurrence is removed, and the scan goes on behind it.\<close>

lemma replaceStray_leftmost:
  "strayMatch a b c d \<Longrightarrow> \<not> hasStray (xs @ [a, b, c]) \<Longrightarrow>
   replaceStray (xs @ a # b # c # d # ys) = xs @ replaceStray ys"
proof (induction xs)
  case Nil
  then show ?case by simp
next
  case (Cons x xs)
  from Cons.prems(2) have no0: "\<not> matchAt (x # xs @ [a, b, c]) 0"
    and rest: "\<not> hasStray (xs @ [a, b, c])"
    by (simp_all add: hasStray_Cons)
  have "matchAt ((x # xs @ [a, b, c]) @ d # ys) 0 = matchAt (x # xs @ [a, b, c]) 0"
    by (rule matchAt_append) simp
  with no0 have "\<not> matchAt (x # (xs @ a # b # c # d # ys)) 0" by simp
  then have "replaceStray (x # (xs @ a # b # c # d # ys)) =
             x # replaceStray (xs @ a # b # c # d # ys)"
    by (rule replaceStray_nomatch)
  with Cons.IH [OF Cons.prems(1) rest] show ?case by simp
qed

lemma replaceStray_is: "replaceStray (''is:'' @ v) = ''is'' @ replaceStray (CHR '':'' # v)"
  by (simp del: replaceStray.simps add: replaceStray_word isWordChar_def)

lemma replaceStray_type: "replaceStray (''type:'' @ v) = ''type'' @ replaceStray (CHR '':'' # v)"
  by (simp del: replaceStray.simps add: replaceStray_word isWordChar_def)

text \<open>
  C8. Before tokenizing, sanitization removes occurrences of the pattern and nothing
  else, and the tokenizer receives the sanitized text: a text without an occurrence is
  left as it is, and the tokenizer then receives the original text; in a text with an
  occurrence, the leftmost one is cut out and the text before it is kept.
\<close>

theorem sanitization_exact:
  "(\<not> hasStray flt \<longrightarrow>
      replaceStray flt = flt \<and>
      parseSearchFilter parse flt =
        (if flt = [] \<or> flt = ''*'' then Inr []
         else case parse flt of
                Inl e \<Rightarrow> Inl e
              | Inr None \<Rightarrow> Inr []
              | Inr (Some offsets) \<Rightarrow> Inr (pushFilters (filter hasKeyword offsets) []))) \<and>
   (\<forall>xs a b c d ys.
      flt = xs @ a # b # c # d # ys \<and> strayMatch a b c d \<and> \<not> hasStray (xs @ [a, b, c]) \<longrightarrow>
      replaceStray flt = xs @ replaceStray ys) \<and>
   parseSearchFilter parse flt =
     (if replaceStray flt = [] \<or> replaceStray flt = ''*'' then Inr []
      else case parse (replaceStray flt) of
             Inl e \<Rightarrow> Inl e
           | Inr None \<Rightarrow> Inr []
           | Inr (Some offsets) \<Rightarrow> Inr (pushFilters (filter hasKeyword offsets) []))"
proof -
  have "flt = [] \<Longrightarrow> replaceStray flt = []" by simp
  then have "parseSearchFilter parse flt =
     (if replaceStray flt = [] \<or> replaceStray flt = ''*'' then Inr []
      else case parse (replaceStray flt) of
             Inl e \<Rightarrow> Inl e
           | Inr None \<Rightarrow> Inr []
           | Inr (Some offsets) \<Rightarrow> Inr (pushFilters (filter hasKeyword offsets) []))"
    by (auto simp: parseSearchFilter_def)
  then show ?thesis
    by (auto simp: replaceStray_id replaceStray_leftmost)
qed

theorem sanitization_exact_witness:
  "\<not> hasStray ''is:unread'' \<and>
   replaceStray ''is:unread'' = ''is:unread'' \<and>
   parseSearchFilter exampleParse ''is:unread'' = Inr [ReadFilter ''unread''] \<and>
   strayMatch CHR ''-'' CHR '' '' CHR 0x22 CHR '':'' \<and>
   \<not> hasStray (''is:un'' @ [CHR ''-'', CHR '' '', CHR 0x22]) \<and>
   replaceStray (''is:un'' @ CHR ''-'' # CHR '' '' # CHR 0x22 # CHR '':'' # ''read'') =
     ''is:unread'' \<and>
   parseSearchFilter exampleParse
     (''is:un'' @ CHR ''-'' # CHR '' '' # CHR 0x22 # CHR '':'' # ''read'') =
     Inr [ReadFilter ''unread''] \<and>
   exampleParse (''is:un'' @ CHR ''-'' # CHR '' '' # CHR 0x22 # CHR '':'' # ''read'') =
     Inr (Some [TextOffset (''is:un'' @ CHR ''-'' # CHR '' '' # CHR 0x22 # CHR '':'' # ''read'')])"
proof -
  let ?flt = "''is:un'' @ CHR ''-'' # CHR '' '' # CHR 0x22 # CHR '':'' # ''read''"
  have a: "\<not> hasStray ''is:unread''"
    by (simp add: hasStray_def matchAt_def strayMatch_def)
  have b: "strayMatch CHR ''-'' CHR '' '' CHR 0x22 CHR '':''"
    by (simp add: strayMatch_def isWordChar_def isSpaceChar_def)
  have c: "\<not> hasStray (''is:un'' @ [CHR ''-'', CHR '' '', CHR 0x22])"
    by (simp add: hasStray_def matchAt_def strayMatch_def)
  have d: "\<not> hasStray ''read''"
    by (simp add: hasStray_def matchAt_def strayMatch_def)
  from sanitization_exact [of "''is:unread''" exampleParse] a
  have e: "replaceStray ''is:unread'' = ''is:unread''"
    and f: "parseSearchFilter exampleParse ''is:unread'' = Inr [ReadFilter ''unread'']"
    by (simp_all add: exampleParse_def)
  note inst = sanitization_exact [of ?flt exampleParse]
  from inst b c have "replaceStray ?flt = ''is:un'' @ replaceStray ''read''"
    by blast
  with replaceStray_id [OF d] have g: "replaceStray ?flt = ''is:unread''" by simp
  from inst have "parseSearchFilter exampleParse ?flt =
     (if replaceStray ?flt = [] \<or> replaceStray ?flt = ''*'' then Inr []
      else case exampleParse (replaceStray ?flt) of
             Inl e \<Rightarrow> Inl e
           | Inr None \<Rightarrow> Inr []
           | Inr (Some offsets) \<Rightarrow> Inr (pushFilters (filter hasKeyword offsets) []))"
    by blast
  then have h: "parseSearchFilter exampleParse ?flt = Inr [ReadFilter ''unread'']"
    unfolding g by (simp add: exampleParse_def)
  have k: "exampleParse ?flt = Inr (Some [TextOffset ?flt])"
    by (simp add: exampleParse_def)
  from a b c e f g h k show ?thesis by simp
qed

subsection \<open>Parsing and matching\<close>

lemma every_True_iff: "every p xs = Inr True \<longleftrightarrow> (\<forall>x\<in>set xs. p x = Inr True)"
  by (induction xs) (auto split: sum.splits)

lemma every_total: "(\<forall>x\<in>set xs. \<exists>b. p x = Inr b) \<Longrightarrow> \<exists>b. every p xs = Inr b"
  by (induction xs) (auto split: sum.splits)

lemma pushFilter_length: "length (pushFilter k result) \<le> Suc (length result)"
  by (cases k) (auto split: option.splits)

lemma pushFilters_length: "length (pushFilters ks result) \<le> length ks + length result"
proof (induction ks arbitrary: result)
  case Nil
  show ?case by simp
next
  case (Cons k ks)
  have "length (pushFilters ks (pushFilter k result)) \<le> length ks + length (pushFilter k result)"
    by (rule Cons.IH)
  with pushFilter_length [of k result] show ?case by simp
qed

text \<open>
  C2. A filter whose sanitized text is empty or exactly \<^verbatim>\<open>*\<close> parses to the empty
  sequence of predicates, and the matcher returns true on every event.
\<close>

theorem match_all_filter:
  assumes "replaceStray flt = [] \<or> replaceStray flt = ''*''"
  shows "parseSearchFilter parse flt = Inr [] \<and>
         fst (isValidData parse isValid flt data tr) = Inr True"
  using assms by (auto simp: parseSearchFilter_def isValidData_def)

theorem match_all_filter_witness:
  "(replaceStray ''*'' = [] \<or> replaceStray ''*'' = ''*'') \<and>
   parseSearchFilter (\<lambda>s. Inl (Error ''tokenizer'')) ''*'' = Inr [] \<and>
   fst (isValidData (\<lambda>s. Inl (Error ''tokenizer'')) (\<lambda>f d. Inr False) ''*''
          exampleData []) = Inr True"
  using match_all_filter [of "''*''" "\<lambda>s. Inl (Error ''tokenizer'')" "\<lambda>f d. Inr False"
      exampleData "[]"]
  by simp

text \<open>
  C3. When the filter parses to a non-empty sequence of predicates, the matcher returns
  true exactly when every predicate of the sequence returns true on the event.
\<close>

theorem matcher_conjunction:
  assumes "parseSearchFilter parse flt = Inr searchFilters" and "searchFilters \<noteq> []"
  shows "fst (isValidData parse isValid flt data tr) = Inr True \<longleftrightarrow>
         (\<forall>searchFilter\<in>set searchFilters. isValid searchFilter data = Inr True)"
  using assms by (simp add: isValidData_def every_True_iff)

theorem matcher_conjunction_witness:
  "parseSearchFilter exampleParse ''subscription:X content:foo'' =
     Inr [SubscriptionFilter ''X'', ContentFilter ''foo''] \<and>
   [SubscriptionFilter ''X'', ContentFilter ''foo''] \<noteq> [] \<and>
   (fst (isValidData exampleParse exampleIsValid ''subscription:X content:foo'' exampleData [])
      = Inr True \<longleftrightarrow>
    (\<forall>searchFilter\<in>set [SubscriptionFilter ''X'', ContentFilter ''foo''].
       exampleIsValid searchFilter exampleData = Inr True))"
proof -
  have p: "parseSearchFilter exampleParse ''subscription:X content:foo'' =
           Inr [SubscriptionFilter ''X'', ContentFilter ''foo'']"
    by (simp add: parseSearchFilter_def exampleParse_def strayMatch_def)
  from p matcher_conjunction [OF p, of exampleIsValid exampleData "[]"]
  show ?thesis by simp
qed

text \<open>
  C6. When the tokenizer reads \<^verbatim>\<open>is:v\<close> as the keyword \<^verbatim>\<open>is\<close> and \<^verbatim>\<open>type:v\<close> as
  the keyword \<^verbatim>\<open>type\<close>, with the same value, both filters parse to the same
  predicate, a \<open>ReadFilter\<close> on that value, and the matcher decides both alike. The two
  cases of the \<^verbatim>\<open>switch\<close> do the same on every token.
\<close>

theorem is_type_equivalent:
  assumes "parse (replaceStray (''is:'' @ v)) = Inr (Some [KeywordOffset ''is'' (Some w)])"
    and "parse (replaceStray (''type:'' @ v)) = Inr (Some [KeywordOffset ''type'' (Some w)])"
  shows "parseSearchFilter parse (''is:'' @ v) = Inr (if w = [] then [] else [ReadFilter w]) \<and>
         parseSearchFilter parse (''type:'' @ v) = Inr (if w = [] then [] else [ReadFilter w]) \<and>
         isValidData parse isValid (''type:'' @ v) data tr =
         isValidData parse isValid (''is:'' @ v) data tr \<and>
         pushFilter (KeywordOffset ''type'' x) result = pushFilter (KeywordOffset ''is'' x) result"
proof -
  have a: "parseSearchFilter parse (''is:'' @ v) = Inr (if w = [] then [] else [ReadFilter w])"
    using assms(1) unfolding parseSearchFilter_def replaceStray_is by simp
  have b: "parseSearchFilter parse (''type:'' @ v) = Inr (if w = [] then [] else [ReadFilter w])"
    using assms(2) unfolding parseSearchFilter_def replaceStray_type by simp
  have c: "pushFilter (KeywordOffset ''type'' x) result = pushFilter (KeywordOffset ''is'' x) result"
    by (simp split: option.splits)
  from a b c show ?thesis by (simp add: isValidData_def)
qed

theorem is_type_equivalent_witness:
  "exampleParse (replaceStray (''is:'' @ ''unread'')) =
     Inr (Some [KeywordOffset ''is'' (Some ''unread'')]) \<and>
   exampleParse (replaceStray (''type:'' @ ''unread'')) =
     Inr (Some [KeywordOffset ''type'' (Some ''unread'')]) \<and>
   parseSearchFilter exampleParse (''is:'' @ ''unread'') = Inr [ReadFilter ''unread''] \<and>
   parseSearchFilter exampleParse (''type:'' @ ''unread'') = Inr [ReadFilter ''unread''] \<and>
   isValidData exampleParse exampleIsValid (''type:'' @ ''unread'') exampleData [] =
   isValidData exampleParse exampleIsValid (''is:'' @ ''unread'') exampleData []"
proof -
  have a: "exampleParse (replaceStray (''is:'' @ ''unread'')) =
           Inr (Some [KeywordOffset ''is'' (Some ''unread'')])"
    by (simp add: exampleParse_def strayMatch_def)
  have b: "exampleParse (replaceStray (''type:'' @ ''unread'')) =
           Inr (Some [KeywordOffset ''type'' (Some ''unread'')])"
    by (simp add: exampleParse_def strayMatch_def)
  from a b is_type_equivalent [OF a b, of exampleIsValid exampleData "[]"]
  show ?thesis by simp
qed

text \<open>
  \<^verbatim>\<open>rule.ts\<close> has no failure of its own: where the tokenizer returns on every text and
  the predicates return on the event, parsing and matching return, and the parse has at
  most as many predicates as the tokenizer found tokens. Whether the tokenizer itself
  returns on every text is not decided here.
\<close>

lemma parsing_and_matching_return:
  assumes "\<forall>s. \<exists>r. parse s = Inr r"
    and "\<forall>searchFilter. \<exists>b. isValid searchFilter data = Inr b"
  shows "(\<exists>searchFilters. parseSearchFilter parse flt = Inr searchFilters \<and>
            (\<forall>offsets. parse (replaceStray flt) = Inr (Some offsets) \<longrightarrow>
               length searchFilters \<le> length offsets)) \<and>
         (\<exists>b. fst (isValidData parse isValid flt data tr) = Inr b)"
proof -
  obtain r where r: "parse (replaceStray flt) = Inr r" using assms(1) by blast
  have len: "length (pushFilters (filter hasKeyword offsets) []) \<le> length offsets" for offsets
  proof -
    have "length (pushFilters (filter hasKeyword offsets) []) \<le> length (filter hasKeyword offsets)"
      using pushFilters_length [of "filter hasKeyword offsets" "[]"] by simp
    also have "\<dots> \<le> length offsets" by (rule length_filter_le)
    finally show ?thesis .
  qed
  have p: "\<exists>searchFilters. parseSearchFilter parse flt = Inr searchFilters \<and>
            (\<forall>offsets. parse (replaceStray flt) = Inr (Some offsets) \<longrightarrow>
               length searchFilters \<le> length offsets)"
    using r len by (cases r) (auto simp: parseSearchFilter_def)
  then obtain fs where fs: "parseSearchFilter parse flt = Inr fs" by blast
  have "\<exists>b. every (\<lambda>searchFilter. isValid searchFilter data) fs = Inr b"
    using assms(2) by (intro every_total) blast
  with fs have "\<exists>b. fst (isValidData parse isValid flt data tr) = Inr b"
    by (auto simp: isValidData_def)
  with p show ?thesis by blast
qed

subsection \<open>The matcher over a store\<close>



lemma everyIn_every:
  "fst (everyIn (\<lambda>x s. (q x, s)) xs s) = every q xs \<and> snd (everyIn (\<lambda>x s. (q x, s)) xs s) = s"
  by (induction xs) (auto split: sum.splits)

text \<open>
  With predicates that only read the event, the matcher over a store is the matcher
  above: same verdict, same console lines, nothing else changed.
\<close>

lemma isValidDataIn_agrees:
  "eventObjects s data = Some d \<Longrightarrow>
   isValidDataIn parse (readingPredicate isValid) flt data s =
     (fst (isValidData parse isValid flt d (console s)),
      s\<lparr>console := snd (isValidData parse isValid flt d (console s))\<rparr>)"
proof -
  assume d: "eventObjects s data = Some d"
  have p: "(\<lambda>searchFilter. readingPredicate isValid searchFilter data) =
           (\<lambda>searchFilter st. (case eventObjects st data of
               None \<Rightarrow> (Inl (Error ''undefined event''), st)
             | Some x \<Rightarrow> (isValid searchFilter x, st)))"
    by (simp add: readingPredicate_def fun_eq_iff)
  have e: "everyIn (\<lambda>searchFilter. readingPredicate isValid searchFilter data) fs s =
           (every (\<lambda>searchFilter. isValid searchFilter d) fs, s)" for fs
    using d by (induction fs) (auto simp: readingPredicate_def split: sum.splits)
  show ?thesis
    by (simp add: isValidDataIn_def isValidData_def e split: sum.splits)
qed




subsection \<open>The trace of a dispatch\<close>

lemma isValidData_fst: "fst (isValidData P V f d tr) = fst (isValidData P V f d [])"
  by (simp add: isValidData_def split: sum.splits)

lemma isValidData_snd: "snd (isValidData P V f d tr) = tr @ snd (isValidData P V f d [])"
  by (simp add: isValidData_def split: sum.splits)

lemma triggerAction_snd:
  "snd (triggerAction C api tok d a tr) = tr @ snd (triggerAction C api tok d a [])"
  by (simp add: triggerAction_def skipAction_def invoke_def
      split: RuleActionType.splits option.splits)

lemma mapActions_Cons_fst:
  "fst (mapActions C api tok d (a # as) tr) =
   fst (triggerAction C api tok d a tr) #
   fst (mapActions C api tok d as (snd (triggerAction C api tok d a tr)))"
  by (simp split: prod.splits)

lemma mapActions_Cons_snd:
  "snd (mapActions C api tok d (a # as) tr) =
   snd (mapActions C api tok d as (snd (triggerAction C api tok d a tr)))"
  by (simp split: prod.splits)

lemma mapActions_snd:
  "snd (mapActions C api tok d as tr) =
   tr @ concat (map (\<lambda>a. snd (triggerAction C api tok d a [])) as)"
proof (induction as arbitrary: tr)
  case Nil
  show ?case by simp
next
  case (Cons a as)
  show ?case
    unfolding mapActions_Cons_snd Cons.IH
    using triggerAction_snd [of C api tok d a tr] by simp
qed

lemma triggerRule_eq:
  "triggerRule P V C api tok d r tr =
     (case fst (isValidData P V (filter_text r) d []) of
        Inl e \<Rightarrow> (Inl e, snd (isValidData P V (filter_text r) d tr))
      | Inr valid \<Rightarrow>
          if \<not> valid then (Inr None, snd (isValidData P V (filter_text r) d tr))
          else (Inr (Some (fst (mapActions C api tok d (actions r)
                                  (snd (isValidData P V (filter_text r) d tr))))),
                snd (mapActions C api tok d (actions r)
                       (snd (isValidData P V (filter_text r) d tr)))))"
  using isValidData_fst [of P V "filter_text r" d tr]
  by (cases "isValidData P V (filter_text r) d tr")
     (auto simp: triggerRule_def split: sum.splits prod.splits)

lemma triggerRule_snd:
  "snd (triggerRule P V C api tok d r tr) =
   tr @ snd (isValidData P V (filter_text r) d []) @
     (if fst (isValidData P V (filter_text r) d []) = Inr True
      then concat (map (\<lambda>a. snd (triggerAction C api tok d a [])) (actions r)) else [])"
  unfolding triggerRule_eq
  using isValidData_snd [of P V "filter_text r" d tr]
  by (simp add: mapActions_snd split: sum.splits)

lemma triggerRule_snd_append:
  "snd (triggerRule P V C api tok d r tr) = tr @ snd (triggerRule P V C api tok d r [])"
  using triggerRule_snd [of P V C api tok d r tr] triggerRule_snd [of P V C api tok d r "[]"]
  by simp

lemma triggerRule_fst_Inr:
  "fst (isValidData P V (filter_text r) d []) = Inr b \<Longrightarrow>
   \<exists>x. fst (triggerRule P V C api tok d r tr) = Inr x"
  unfolding triggerRule_eq by simp

lemma mapRules_Cons_eq:
  "mapRules P V C api tok d (r # rs) tr =
     (case fst (triggerRule P V C api tok d r tr) of
        Inl e \<Rightarrow> (Inl e, snd (triggerRule P V C api tok d r tr))
      | Inr x \<Rightarrow>
          (case fst (mapRules P V C api tok d rs (snd (triggerRule P V C api tok d r tr))) of
             Inl e \<Rightarrow> (Inl e, snd (mapRules P V C api tok d rs (snd (triggerRule P V C api tok d r tr))))
           | Inr xs \<Rightarrow> (Inr (x # xs),
                snd (mapRules P V C api tok d rs (snd (triggerRule P V C api tok d r tr))))))"
  by (simp split: prod.splits sum.splits)

lemma mapRules_fst_Inr:
  "\<forall>r\<in>set rs. \<exists>b. fst (isValidData P V (filter_text r) d []) = Inr b \<Longrightarrow>
   \<exists>xs. fst (mapRules P V C api tok d rs tr) = Inr xs"
proof (induction rs arbitrary: tr)
  case Nil
  show ?case by simp
next
  case (Cons r rs)
  from Cons.prems obtain x where x: "fst (triggerRule P V C api tok d r tr) = Inr x"
    using triggerRule_fst_Inr [of P V r d _ C api tok tr] by auto
  from Cons.IH [of "snd (triggerRule P V C api tok d r tr)"] Cons.prems
  obtain xs where "fst (mapRules P V C api tok d rs (snd (triggerRule P V C api tok d r tr))) = Inr xs"
    by auto
  with x show ?case unfolding mapRules_Cons_eq by simp
qed

lemma mapRules_snd:
  "\<forall>r\<in>set rs. \<exists>b. fst (isValidData P V (filter_text r) d []) = Inr b \<Longrightarrow>
   snd (mapRules P V C api tok d rs tr) =
   tr @ concat (map (\<lambda>r. snd (triggerRule P V C api tok d r [])) rs)"
proof (induction rs arbitrary: tr)
  case Nil
  show ?case by simp
next
  case (Cons r rs)
  from Cons.prems obtain x where x: "fst (triggerRule P V C api tok d r tr) = Inr x"
    using triggerRule_fst_Inr [of P V r d _ C api tok tr] by auto
  from mapRules_fst_Inr [of rs P V d C api tok "snd (triggerRule P V C api tok d r tr)"] Cons.prems
  obtain xs where xs: "fst (mapRules P V C api tok d rs (snd (triggerRule P V C api tok d r tr))) = Inr xs"
    by auto
  have "snd (mapRules P V C api tok d (r # rs) tr) =
        snd (mapRules P V C api tok d rs (snd (triggerRule P V C api tok d r tr)))"
    unfolding mapRules_Cons_eq using x xs by simp
  also have "\<dots> = snd (triggerRule P V C api tok d r tr) @
      concat (map (\<lambda>r. snd (triggerRule P V C api tok d r [])) rs)"
    using Cons.IH [of "snd (triggerRule P V C api tok d r tr)"] Cons.prems by simp
  finally show ?case using triggerRule_snd_append [of P V C api tok d r tr] by simp
qed


lemma invoked_in_action:
  "Invoked c \<in> set (snd (triggerAction C api tok d a [])) =
     (case action_type a of
        AddLabel \<Rightarrow> (\<exists>i. data_id d = Some i \<and> i \<noteq> [] \<and> params a \<noteq> [] \<and>
                          c = addLabels api tok i (params a))
      | Archive \<Rightarrow> (\<exists>i. data_id d = Some i \<and> i \<noteq> [] \<and> c = archivePage api tok i)
      | MarkAsRead \<Rightarrow> (\<exists>i. data_id d = Some i \<and> i \<noteq> [] \<and> c = markPageAsRead api tok i)
      | SendNotification \<Rightarrow> c = sendNotification api tok ''New page added to your feed'')"
  by (auto simp: triggerAction_def skipAction_def invoke_def
      split: RuleActionType.splits option.splits)

lemma logged_in_action:
  "ConsoleLog m \<in> set (snd (triggerAction C api tok d a [])) =
     (case action_type a of
        AddLabel \<Rightarrow> (\<not> truthy (data_id d) \<or> params a = []) \<and>
                     m = ''invalid data for add label action''
      | Archive \<Rightarrow> \<not> truthy (data_id d) \<and> m = ''invalid data for archive action''
      | MarkAsRead \<Rightarrow> \<not> truthy (data_id d) \<and> m = ''invalid data for mark as read action''
      | SendNotification \<Rightarrow> False)"
  by (auto simp: triggerAction_def skipAction_def invoke_def
      split: RuleActionType.splits option.splits)

lemma auth_not_in_action: "AuthRequested x y \<notin> set (snd (triggerAction C api tok d a []))"
  by (auto simp: triggerAction_def skipAction_def invoke_def
      split: RuleActionType.splits option.splits)

lemma events_of_matcher:
  "e \<in> set (snd (isValidData P V f d [])) \<Longrightarrow> e = ConsoleDebug ''no search filters found''"
  by (auto simp: isValidData_def split: sum.splits if_splits)

lemma invoked_in_rule:
  "Invoked c \<in> set (snd (triggerRule P V C api tok d r [])) =
     (fst (isValidData P V (filter_text r) d []) = Inr True \<and>
      (\<exists>a\<in>set (actions r). Invoked c \<in> set (snd (triggerAction C api tok d a []))))"
  using events_of_matcher [of "Invoked c" P V "filter_text r" d]
  by (auto simp: triggerRule_snd [of P V C api tok d r "[]"])

lemma logged_in_rule:
  "ConsoleLog m \<in> set (snd (triggerRule P V C api tok d r [])) =
     (fst (isValidData P V (filter_text r) d []) = Inr True \<and>
      (\<exists>a\<in>set (actions r). ConsoleLog m \<in> set (snd (triggerAction C api tok d a []))))"
  using events_of_matcher [of "ConsoleLog m" P V "filter_text r" d]
  by (auto simp: triggerRule_snd [of P V C api tok d r "[]"])

lemma auth_not_in_rule: "AuthRequested x y \<notin> set (snd (triggerRule P V C api tok d r []))"
  using events_of_matcher [of "AuthRequested x y" P V "filter_text r" d]
  by (auto simp: triggerRule_snd [of P V C api tok d r "[]"] auth_not_in_action)

text \<open>Whether or not the matcher throws, the trace of the rules is the concatenation
  of the traces of a prefix of the rules.\<close>

lemma mapRules_snd_prefix:
  "\<exists>n. snd (mapRules P V C api tok d rs tr) =
        tr @ concat (map (\<lambda>r. snd (triggerRule P V C api tok d r [])) (take n rs))"
proof (induction rs arbitrary: tr)
  case Nil
  show ?case by simp
next
  case (Cons r rs)
  let ?tr' = "snd (triggerRule P V C api tok d r tr)"
  have tr': "?tr' = tr @ snd (triggerRule P V C api tok d r [])"
    by (rule triggerRule_snd_append)
  show ?case
  proof (cases "fst (triggerRule P V C api tok d r tr)")
    case (Inl e)
    then have "snd (mapRules P V C api tok d (r # rs) tr) = ?tr'"
      unfolding mapRules_Cons_eq by simp
    with tr' have "snd (mapRules P V C api tok d (r # rs) tr) =
        tr @ concat (map (\<lambda>r. snd (triggerRule P V C api tok d r [])) (take (Suc 0) (r # rs)))"
      by simp
    then show ?thesis by blast
  next
    case (Inr x)
    then have "snd (mapRules P V C api tok d (r # rs) tr) = snd (mapRules P V C api tok d rs ?tr')"
      unfolding mapRules_Cons_eq by (simp split: sum.splits)
    moreover from Cons.IH [of ?tr'] obtain n where
      "snd (mapRules P V C api tok d rs ?tr') =
       ?tr' @ concat (map (\<lambda>r. snd (triggerRule P V C api tok d r [])) (take n rs))"
      by blast
    ultimately have "snd (mapRules P V C api tok d (r # rs) tr) =
        tr @ concat (map (\<lambda>r. snd (triggerRule P V C api tok d r [])) (take (Suc n) (r # rs)))"
      using tr' by simp
    then show ?thesis by blast
  qed
qed

lemma launched_append:
  "launched C pre (xs @ ys) = launched C pre xs @ launched C (pre @ xs) ys"
proof (induction xs arbitrary: pre)
  case Nil
  show ?case by simp
next
  case (Cons x xs)
  show ?case using Cons.IH [of "pre @ [x]"] by (cases x) simp_all
qed

lemma filterDefined_append: "filterDefined (xs @ ys) = filterDefined xs @ filterDefined ys"
  by (induction xs rule: filterDefined.induct) simp_all

lemma launched_action:
  "launched C tr (snd (triggerAction C api tok d a [])) =
   filterDefined [fst (triggerAction C api tok d a tr)]"
  by (simp add: triggerAction_def skipAction_def invoke_def
      split: RuleActionType.splits option.splits)

lemma launched_actions:
  "launched C tr (concat (map (\<lambda>a. snd (triggerAction C api tok d a [])) as)) =
   filterDefined (fst (mapActions C api tok d as tr))"
proof (induction as arbitrary: tr)
  case Nil
  show ?case by simp
next
  case (Cons a as)
  have "filterDefined (fst (mapActions C api tok d (a # as) tr)) =
        filterDefined [fst (triggerAction C api tok d a tr)] @
        filterDefined (fst (mapActions C api tok d as (snd (triggerAction C api tok d a tr))))"
    unfolding mapActions_Cons_fst by (cases "fst (triggerAction C api tok d a tr)") simp_all
  then show ?case
    using Cons.IH [of "snd (triggerAction C api tok d a tr)"]
      triggerAction_snd [of C api tok d a tr] launched_action [of C tr api tok d a]
    by (simp add: launched_append)
qed

lemma launched_matcher: "launched C tr (snd (isValidData P V f d [])) = []"
  by (simp add: isValidData_def split: sum.splits)

lemma launched_rule:
  "fst (triggerRule P V C api tok d r tr) = Inr x \<Longrightarrow>
   launched C tr (snd (triggerRule P V C api tok d r [])) = filterDefined (flat [x])"
  using launched_actions [of C "snd (isValidData P V (filter_text r) d tr)" api tok d "actions r"]
    isValidData_snd [of P V "filter_text r" d tr]
  unfolding triggerRule_snd [of P V C api tok d r "[]"] triggerRule_eq [of P V C api tok d r tr]
  by (auto simp: launched_append launched_matcher split: sum.splits if_splits)

lemma flat_Cons: "flat (x # xs) = flat [x] @ flat xs"
  by (cases x) simp_all

lemma launched_rules:
  "fst (mapRules P V C api tok d rs tr) = Inr xs \<Longrightarrow>
   launched C tr (concat (map (\<lambda>r. snd (triggerRule P V C api tok d r [])) rs)) =
   filterDefined (flat xs)"
proof (induction rs arbitrary: tr xs)
  case Nil
  then show ?case by simp
next
  case (Cons r rs)
  let ?tr' = "snd (triggerRule P V C api tok d r tr)"
  from Cons.prems obtain x ys where
    x: "fst (triggerRule P V C api tok d r tr) = Inr x" and
    ys: "fst (mapRules P V C api tok d rs ?tr') = Inr ys" and
    xs: "xs = x # ys"
    unfolding mapRules_Cons_eq by (auto split: sum.splits)
  have "launched C tr (snd (triggerRule P V C api tok d r [])) = filterDefined (flat [x])"
    using x by (rule launched_rule)
  moreover have "launched C ?tr' (concat (map (\<lambda>r. snd (triggerRule P V C api tok d r [])) rs)) =
                 filterDefined (flat ys)"
    using ys by (rule Cons.IH)
  ultimately show ?case
    using triggerRule_snd_append [of P V C api tok d r tr] flat_Cons [of x ys]
    by (simp add: launched_append filterDefined_append xs)
qed

text \<open>The promises joined by a dispatch are the promises of the calls in its trace.\<close>

lemma dispatch_joined:
  assumes auth: "G u s = Promise t (Inr tok)"
    and returns: "\<forall>r\<in>set rules. \<exists>b. fst (isValidData P V (filter_text r) d []) = Inr b"
  shows "triggerActions G P V C u rules d api s =
         (promiseAll t (launched C [] (snd (triggerActions G P V C u rules d api s))),
          AuthRequested u s # concat (map (\<lambda>r. snd (triggerRule P V C api tok d r [])) rules))"
proof -
  let ?tr0 = "[AuthRequested u s]"
  from mapRules_fst_Inr [OF returns] obtain xs where
    xs: "fst (mapRules P V C api tok d rules ?tr0) = Inr xs" by blast
  have tr: "snd (mapRules P V C api tok d rules ?tr0) =
            ?tr0 @ concat (map (\<lambda>r. snd (triggerRule P V C api tok d r [])) rules)"
    using returns by (rule mapRules_snd)
  have l: "launched C ?tr0 (concat (map (\<lambda>r. snd (triggerRule P V C api tok d r [])) rules)) =
           filterDefined (flat xs)"
    using xs by (rule launched_rules)
  have "triggerActions G P V C u rules d api s =
        (promiseAll t (filterDefined (flat xs)), snd (mapRules P V C api tok d rules ?tr0))"
    using auth xs
    by (cases "mapRules P V C api tok d rules ?tr0") (auto simp: triggerActions_def)
  with tr l show ?thesis by simp
qed

lemma dispatch_trace_prefix:
  assumes auth: "G u s = Promise t (Inr tok)"
  shows "\<exists>n. snd (triggerActions G P V C u rules d api s) =
         AuthRequested u s #
         concat (map (\<lambda>r. snd (triggerRule P V C api tok d r [])) (take n rules))"
proof -
  have "snd (triggerActions G P V C u rules d api s) =
        snd (mapRules P V C api tok d rules [AuthRequested u s])"
    using auth
    by (cases "mapRules P V C api tok d rules [AuthRequested u s]")
       (auto simp: triggerActions_def split: sum.splits)
  with mapRules_snd_prefix [of P V C api tok d rules "[AuthRequested u s]"]
  show ?thesis by simp
qed

lemma dispatch_auth_failed:
  "G u s = Promise t (Inl e) \<Longrightarrow>
   triggerActions G P V C u rules d api s = (Promise t (Inl e), [AuthRequested u s])"
  by (simp add: triggerActions_def)

text \<open>The trace of a dispatch does not depend on how the capability calls settle.\<close>

lemma triggerAction_snd_indep:
  "snd (triggerAction C api tok d a tr) = snd (triggerAction C' api tok d a tr)"
  by (simp add: triggerAction_def skipAction_def invoke_def
      split: RuleActionType.splits option.splits)

lemma triggerRule_snd_indep:
  "snd (triggerRule P V C api tok d r tr) = snd (triggerRule P V C' api tok d r tr)"
  unfolding triggerRule_snd [of P V _ api tok d r tr]
  using triggerAction_snd_indep [of C api tok d _ "[]" C'] by simp

lemma dispatch_trace_indep:
  assumes auth: "G u s = Promise t (Inr tok)"
    and returns: "\<forall>r\<in>set rules. \<exists>b. fst (isValidData P V (filter_text r) d []) = Inr b"
  shows "snd (triggerActions G P V C u rules d api s) =
         snd (triggerActions G P V C' u rules d api s)"
proof -
  have "snd (triggerActions G P V C u rules d api s) =
        AuthRequested u s # concat (map (\<lambda>r. snd (triggerRule P V C api tok d r [])) rules)"
    using arg_cong [OF dispatch_joined [of G u s t tok rules P V d C api, OF auth returns], of snd]
    by simp
  moreover have "snd (triggerActions G P V C' u rules d api s) =
        AuthRequested u s # concat (map (\<lambda>r. snd (triggerRule P V C' api tok d r [])) rules)"
    using arg_cong [OF dispatch_joined [of G u s t tok rules P V d C' api, OF auth returns], of snd]
    by simp
  moreover have "(\<lambda>r. snd (triggerRule P V C api tok d r [])) =
                 (\<lambda>r. snd (triggerRule P V C' api tok d r []))"
    using triggerRule_snd_indep [of P V C api tok d _ "[]" C'] by auto
  ultimately show ?thesis by simp
qed

subsection \<open>Promise.all\<close>

lemma firstRejection_None:
  "firstRejection ps = None \<longleftrightarrow> (\<forall>p\<in>set ps. \<exists>v. outcome p = Inr v)"
proof (induction ps rule: firstRejection.induct)
  case 1
  show ?case by simp
next
  case (2 t v ps)
  then show ?case by simp
next
  case (3 t e ps)
  show ?case by (simp split: option.splits)
qed

lemma firstRejection_Some:
  "firstRejection ps = Some (t, e) \<Longrightarrow>
   Promise t (Inl e) \<in> set ps \<and> (\<forall>q\<in>set ps. \<forall>e'. outcome q = Inl e' \<longrightarrow> t \<le> settledAt q)"
proof (induction ps arbitrary: t e rule: firstRejection.induct)
  case 1
  then show ?case by simp
next
  case (2 t' v ps)
  then show ?case by simp
next
  case (3 t' e' ps)
  show ?case
  proof (cases "firstRejection ps")
    case None
    with "3.prems" firstRejection_None [of ps] show ?thesis by auto
  next
    case (Some te)
    obtain t'' e'' where te: "te = (t'', e'')" by (cases te)
    from "3.IH" [of t'' e''] Some te
    have ih: "Promise t'' (Inl e'') \<in> set ps"
      "\<forall>q\<in>set ps. \<forall>e'. outcome q = Inl e' \<longrightarrow> t'' \<le> settledAt q"
      by simp_all
    from "3.prems" Some te ih show ?thesis
      by (auto split: if_splits)
  qed
qed

lemma fulfilledValues_all:
  "\<forall>p\<in>set ps. \<exists>v. outcome p = Inr v \<Longrightarrow> map Inr (fulfilledValues ps) = map outcome ps"
  by (induction ps rule: fulfilledValues.induct) simp_all

lemma foldr_max_ge: "now \<le> foldr max (map settledAt ps) now \<and>
   (\<forall>p\<in>set ps. settledAt p \<le> foldr max (map settledAt ps) now)"
  by (induction ps) (auto simp: max_def)


lemma length_launched: "length (launched C pre tr) = length (filter isInvoked tr)"
proof (induction tr arbitrary: pre)
  case Nil
  show ?case by simp
next
  case (Cons e tr)
  show ?case using Cons.IH by (cases e) simp_all
qed

lemma mapRules_Inr_returns:
  "fst (mapRules P V C api tok d rs tr) = Inr xs \<Longrightarrow>
   \<forall>r\<in>set rs. \<exists>b. fst (isValidData P V (filter_text r) d []) = Inr b"
proof (induction rs arbitrary: tr xs)
  case Nil
  show ?case by simp
next
  case (Cons r rs)
  let ?tr' = "snd (triggerRule P V C api tok d r tr)"
  from Cons.prems obtain x ys where
    x: "fst (triggerRule P V C api tok d r tr) = Inr x" and
    ys: "fst (mapRules P V C api tok d rs ?tr') = Inr ys"
    unfolding mapRules_Cons_eq by (auto split: sum.splits)
  from x have "\<exists>b. fst (isValidData P V (filter_text r) d []) = Inr b"
    unfolding triggerRule_eq by (auto split: sum.splits)
  with Cons.IH [OF ys] show ?case by simp
qed

lemma dispatch_fulfilled_returns:
  assumes "triggerActions G P V C u rules d api s = (res, tr)" and "outcome res = Inr vs"
  shows "\<exists>t tok. G u s = Promise t (Inr tok) \<and>
           (\<forall>r\<in>set rules. \<exists>b. fst (isValidData P V (filter_text r) d []) = Inr b)"
proof -
  obtain t out where g: "G u s = Promise t out" by (cases "G u s")
  show ?thesis
  proof (cases out)
    case (Inl e)
    with g assms show ?thesis by (auto simp: triggerActions_def)
  next
    case (Inr tok)
    obtain m tr' where m: "mapRules P V C api tok d rules [AuthRequested u s] = (m, tr')"
      by (cases "mapRules P V C api tok d rules [AuthRequested u s]")
    show ?thesis
    proof (cases m)
      case (Inl e)
      with g \<open>out = Inr tok\<close> m assms show ?thesis by (auto simp: triggerActions_def)
    next
      case (Inr xs)
      with m have "fst (mapRules P V C api tok d rules [AuthRequested u s]) = Inr xs" by simp
      then have "\<forall>r\<in>set rules. \<exists>b. fst (isValidData P V (filter_text r) d []) = Inr b"
        by (rule mapRules_Inr_returns)
      with g \<open>out = Inr tok\<close> show ?thesis by blast
    qed
  qed
qed

lemma count_invoked_action:
  "length (filter isInvoked (snd (triggerAction C api tok d a []))) =
     (if (case action_type a of
            AddLabel \<Rightarrow> truthy (data_id d) \<and> params a \<noteq> []
          | Archive \<Rightarrow> truthy (data_id d)
          | MarkAsRead \<Rightarrow> truthy (data_id d)
          | SendNotification \<Rightarrow> True) then 1 else 0)"
  by (simp add: triggerAction_def skipAction_def invoke_def
      split: RuleActionType.splits option.splits)

lemma length_filter_concat:
  "length (filter Q (concat (map f xs))) = sum_list (map (\<lambda>x. length (filter Q (f x))) xs)"
  by (induction xs) simp_all

lemma sum_list_indicator: "sum_list (map (\<lambda>x. if Q x then 1 else 0) xs) = length (filter Q xs)"
  by (induction xs) simp_all

lemma filter_invoked_matcher: "filter isInvoked (snd (isValidData P V f d [])) = []"
  by (simp add: isValidData_def split: sum.splits)

lemma count_invoked_rule:
  "length (filter isInvoked (snd (triggerRule P V C api tok d r []))) =
     (if fst (isValidData P V (filter_text r) d []) = Inr True
      then length (filter (\<lambda>a. case action_type a of
                                  AddLabel \<Rightarrow> truthy (data_id d) \<and> params a \<noteq> []
                                | Archive \<Rightarrow> truthy (data_id d)
                                | MarkAsRead \<Rightarrow> truthy (data_id d)
                                | SendNotification \<Rightarrow> True) (actions r))
      else 0)"
  unfolding triggerRule_snd [of P V C api tok d r "[]"]
  by (simp add: filter_invoked_matcher length_filter_concat count_invoked_action
      sum_list_indicator)

subsection \<open>The example dispatch\<close>

lemma example_matches:
  "fst (isValidData exampleParse exampleIsValid ''is:unread'' exampleData []) = Inr True"
  "fst (isValidData exampleParse exampleIsValid ''subscription:X content:foo'' exampleData [])
     = Inr False"
  by (simp_all add: isValidData_def parseSearchFilter_def exampleParse_def strayMatch_def)

lemma example_returns:
  "\<forall>r\<in>set exampleRules.
     \<exists>b. fst (isValidData exampleParse exampleIsValid (filter_text r) exampleData []) = Inr b"
  by (auto simp: exampleRules_def exampleRule_def example_matches)

lemma example_run:
  "triggerActions exampleAuth exampleParse exampleIsValid exampleCapability
     ''u'' exampleRules exampleData ''api'' ''secret'' =
   (Promise 5 (Inl (Error ''notification failed'')), exampleTrace)"
  by (simp add: triggerActions_def exampleAuth_def exampleRules_def exampleRule_def
      triggerRule_eq example_matches isValidData_def parseSearchFilter_def exampleParse_def
      strayMatch_def triggerAction_def invoke_def skipAction_def exampleData_def
      promiseAll_def exampleTrace_def mapActions_Cons_fst mapActions_Cons_snd
      del: mapActions.simps(2))

lemma example_run_ok:
  "triggerActions exampleAuth exampleParse exampleIsValid okCapability
     ''u'' exampleRules exampleData ''api'' ''secret'' =
   (Promise 8 (Inr [''ok'', ''ok'', ''ok'', ''ok'']), exampleTrace)"
  by (simp add: triggerActions_def exampleAuth_def exampleRules_def exampleRule_def
      triggerRule_eq example_matches isValidData_def parseSearchFilter_def exampleParse_def
      strayMatch_def triggerAction_def invoke_def skipAction_def exampleData_def
      promiseAll_def exampleTrace_def mapActions_Cons_fst mapActions_Cons_snd okCapability_def
      del: mapActions.simps(2))

lemma example_launched:
  "launched exampleCapability [] exampleTrace =
     [Promise 8 (Inr ''ok''), Promise 5 (Inl (Error ''notification failed'')),
      Promise 8 (Inr ''ok''), Promise 8 (Inr ''ok'')]"
  by (simp add: exampleTrace_def)

lemma example_launched_ok:
  "launched okCapability [] exampleTrace =
     [Promise 8 (Inr ''ok''), Promise 8 (Inr ''ok''), Promise 8 (Inr ''ok''),
      Promise 8 (Inr ''ok'')]"
  by (simp add: exampleTrace_def okCapability_def)

lemma example_auth: "exampleAuth ''u'' ''secret'' = Promise 3 (Inr ''jwt'')"
  by (simp add: exampleAuth_def)

lemma quiet_matches:
  "fst (isValidData exampleParse exampleIsValid ''*'' exampleData []) = Inr True"
  by (simp add: isValidData_def parseSearchFilter_def)

lemma quiet_returns:
  "\<forall>r\<in>set quietRules.
     \<exists>b. fst (isValidData exampleParse exampleIsValid (filter_text r) exampleData []) = Inr b"
  by (auto simp: quietRules_def exampleRule_def example_matches quiet_matches)

lemma example_verdicts:
  "map (\<lambda>r. fst (isValidData exampleParse exampleIsValid (filter_text r) exampleData []))
     exampleRules = [Inr True, Inr False]"
  by (simp add: exampleRules_def exampleRule_def example_matches)

lemma quiet_verdicts:
  "map (\<lambda>r. fst (isValidData exampleParse exampleIsValid (filter_text r) exampleData []))
     quietRules = [Inr False, Inr True]"
  by (simp add: quietRules_def exampleRule_def example_matches quiet_matches)

lemma quiet_run:
  "triggerActions exampleAuth exampleParse exampleIsValid exampleCapability
     ''u'' quietRules exampleData ''api'' ''secret'' =
   (Promise 3 (Inr []),
    [AuthRequested ''u'' ''secret'', ConsoleDebug ''no search filters found'',
     ConsoleLog ''invalid data for add label action''])"
  by (simp add: triggerActions_def exampleAuth_def quietRules_def exampleRule_def
      triggerRule_eq example_matches quiet_matches isValidData_def parseSearchFilter_def
      exampleParse_def strayMatch_def triggerAction_def invoke_def skipAction_def exampleData_def
      promiseAll_def mapActions_Cons_fst mapActions_Cons_snd
      del: mapActions.simps(2))

subsection \<open>Dispatch\<close>

lemma authOf_in_action:
  "Invoked c \<in> set (snd (triggerAction C api tok d a [])) \<Longrightarrow> authOf c = tok"
  by (auto simp: invoked_in_action split: RuleActionType.splits)


text \<open>
  C10. When a dispatch is fulfilled, its result has one entry for each capability call
  of its trace, in the order of the calls, each the value of that call: a matching
  rule contributes one entry for each of its actions whose precondition holds, a rule
  that does not match contributes none. A dispatch that gets its credential and makes
  no call is fulfilled with the empty list.
\<close>

theorem outcomes_one_per_call:
  assumes run: "triggerActions G P V C u rules d api s = (res, tr)"
  shows "(\<forall>outcomes. outcome res = Inr outcomes \<longrightarrow>
            length outcomes = length (filter isInvoked tr) \<and>
            map Inr outcomes = map outcome (launched C [] tr) \<and>
            length outcomes =
              sum_list (map (\<lambda>r. if fst (isValidData P V (filter_text r) d []) = Inr True
                  then length (filter (\<lambda>a. case action_type a of
                                  AddLabel \<Rightarrow> truthy (data_id d) \<and> params a \<noteq> []
                                | Archive \<Rightarrow> truthy (data_id d)
                                | MarkAsRead \<Rightarrow> truthy (data_id d)
                                | SendNotification \<Rightarrow> True) (actions r))
                  else 0) rules)) \<and>
         (\<forall>t tok. G u s = Promise t (Inr tok) \<and>
            (\<forall>r\<in>set rules. \<exists>b. fst (isValidData P V (filter_text r) d []) = Inr b) \<and>
            \<not> list_ex isInvoked tr \<longrightarrow> res = Promise t (Inr []))"
proof (intro conjI allI impI)
  fix outcomes
  assume out: "outcome res = Inr outcomes"
  from dispatch_fulfilled_returns [OF run out] obtain t tok where
    auth: "G u s = Promise t (Inr tok)" and
    returns: "\<forall>r\<in>set rules. \<exists>b. fst (isValidData P V (filter_text r) d []) = Inr b"
    by blast
  from dispatch_joined [of G u s t tok rules P V d C api] auth returns run
  have res: "res = promiseAll t (launched C [] tr)"
    and tr: "tr = AuthRequested u s # concat (map (\<lambda>r. snd (triggerRule P V C api tok d r [])) rules)"
    by simp_all
  from res out have none: "firstRejection (launched C [] tr) = None"
    and vs: "outcomes = fulfilledValues (launched C [] tr)"
    by (auto simp: promiseAll_def split: option.splits)
  from none have all: "\<forall>p\<in>set (launched C [] tr). \<exists>v. outcome p = Inr v"
    by (simp add: firstRejection_None)
  show m: "map Inr outcomes = map outcome (launched C [] tr)"
    unfolding vs using all by (rule fulfilledValues_all)
  from m have "length (map (Inr :: _ \<Rightarrow> error + _) outcomes) = length (map outcome (launched C [] tr))"
    by simp
  then show l: "length outcomes = length (filter isInvoked tr)"
    by (simp add: length_launched)
  show "length outcomes =
        sum_list (map (\<lambda>r. if fst (isValidData P V (filter_text r) d []) = Inr True
                  then length (filter (\<lambda>a. case action_type a of
                                  AddLabel \<Rightarrow> truthy (data_id d) \<and> params a \<noteq> []
                                | Archive \<Rightarrow> truthy (data_id d)
                                | MarkAsRead \<Rightarrow> truthy (data_id d)
                                | SendNotification \<Rightarrow> True) (actions r))
                  else 0) rules)"
    unfolding l by (subst tr) (simp add: length_filter_concat count_invoked_rule)
next
  fix t tok
  assume a: "G u s = Promise t (Inr tok) \<and>
            (\<forall>r\<in>set rules. \<exists>b. fst (isValidData P V (filter_text r) d []) = Inr b) \<and>
            \<not> list_ex isInvoked tr"
  then have auth: "G u s = Promise t (Inr tok)"
    and returns: "\<forall>r\<in>set rules. \<exists>b. fst (isValidData P V (filter_text r) d []) = Inr b"
    and none: "\<not> list_ex isInvoked tr" by simp_all
  from dispatch_joined [of G u s t tok rules P V d C api] auth returns run
  have res: "res = promiseAll t (launched C [] tr)" by simp
  from none have "filter isInvoked tr = []" by (simp add: list_ex_iff filter_empty_conv)
  then have "length (launched C [] tr) = 0" by (simp add: length_launched)
  then have "launched C [] tr = []" by simp
  with res show "res = Promise t (Inr [])" by (simp add: promiseAll_def)
qed

theorem outcomes_one_per_call_witness:
  "triggerActions exampleAuth exampleParse exampleIsValid okCapability
     ''u'' exampleRules exampleData ''api'' ''secret'' =
     (Promise 8 (Inr [''ok'', ''ok'', ''ok'', ''ok'']), exampleTrace) \<and>
   length [''ok'', ''ok'', ''ok'', ''ok''] = length (filter isInvoked exampleTrace) \<and>
   map Inr [''ok'', ''ok'', ''ok'', ''ok''] = map outcome (launched okCapability [] exampleTrace) \<and>
   exampleAuth ''u'' ''secret'' = Promise 3 (Inr ''jwt'') \<and>
   map (\<lambda>r. fst (isValidData exampleParse exampleIsValid (filter_text r) exampleData []))
     quietRules = [Inr False, Inr True] \<and>
   \<not> list_ex isInvoked (snd (triggerActions exampleAuth exampleParse exampleIsValid
        exampleCapability ''u'' quietRules exampleData ''api'' ''secret'')) \<and>
   fst (triggerActions exampleAuth exampleParse exampleIsValid exampleCapability
          ''u'' quietRules exampleData ''api'' ''secret'') = Promise 3 (Inr [])"
proof -
  have quiet: "\<not> list_ex isInvoked (snd (triggerActions exampleAuth exampleParse exampleIsValid
        exampleCapability ''u'' quietRules exampleData ''api'' ''secret''))"
    by (simp add: quiet_run)
  from outcomes_one_per_call [OF example_run_ok]
  have a: "length [''ok'', ''ok'', ''ok'', ''ok''] = length (filter isInvoked exampleTrace)"
    and b: "map Inr [''ok'', ''ok'', ''ok'', ''ok''] =
            map outcome (launched okCapability [] exampleTrace)"
    by simp_all
  from outcomes_one_per_call [OF surjective_pairing] example_auth quiet_returns quiet
  have c: "fst (triggerActions exampleAuth exampleParse exampleIsValid exampleCapability
          ''u'' quietRules exampleData ''api'' ''secret'') = Promise 3 (Inr [])"
    by blast
  from example_run_ok a b example_auth quiet_verdicts quiet c show ?thesis by blast
qed

text \<open>
  C5. A dispatch asks for the credential once, before anything else; every capability
  call of the dispatch carries that credential; and when the credential cannot be had,
  the dispatch is rejected with that failure and no capability is called.
\<close>

theorem credential_acquired_once:
  "(\<exists>rest. snd (triggerActions G P V C u rules d api s) = AuthRequested u s # rest \<and>
           \<not> list_ex isAuthRequest rest) \<and>
   (\<forall>c. Invoked c \<in> set (snd (triggerActions G P V C u rules d api s)) \<longrightarrow>
        (\<exists>t. G u s = Promise t (Inr (authOf c)))) \<and>
   (\<forall>t e. G u s = Promise t (Inl e) \<longrightarrow>
        triggerActions G P V C u rules d api s = (Promise t (Inl e), [AuthRequested u s]))"
proof -
  obtain t out where g: "G u s = Promise t out" by (cases "G u s")
  show ?thesis
  proof (cases out)
    case (Inl e)
    with g have "triggerActions G P V C u rules d api s = (Promise t (Inl e), [AuthRequested u s])"
      by (simp add: dispatch_auth_failed)
    with g Inl show ?thesis by simp
  next
    case (Inr tok)
    with g have auth: "G u s = Promise t (Inr tok)" by simp
    from dispatch_trace_prefix [of G u s t tok P V C rules d api] auth obtain n where
      tr: "snd (triggerActions G P V C u rules d api s) =
           AuthRequested u s #
           concat (map (\<lambda>r. snd (triggerRule P V C api tok d r [])) (take n rules))"
      by blast
    let ?rest = "concat (map (\<lambda>r. snd (triggerRule P V C api tok d r [])) (take n rules))"
    have no_auth: "\<not> list_ex isAuthRequest ?rest"
    proof
      assume "list_ex isAuthRequest ?rest"
      then obtain e where e: "e \<in> set ?rest" "isAuthRequest e" by (auto simp: list_ex_iff)
      from e(2) obtain x y where "e = AuthRequested x y" by (cases e) simp_all
      with e(1) show False by (auto simp: auth_not_in_rule)
    qed
    have same: "authOf c = tok" if "Invoked c \<in> set ?rest" for c
      using that by (auto simp: invoked_in_rule dest: authOf_in_action)
    from tr no_auth same auth show ?thesis by auto
  qed
qed

theorem credential_acquired_once_witness:
  "(\<exists>rest. snd (triggerActions exampleAuth exampleParse exampleIsValid exampleCapability
                  ''u'' exampleRules exampleData ''api'' ''secret'') =
             AuthRequested ''u'' ''secret'' # rest \<and> \<not> list_ex isAuthRequest rest) \<and>
   Invoked (archivePage ''api'' ''jwt'' ''abc'')
     \<in> set (snd (triggerActions exampleAuth exampleParse exampleIsValid exampleCapability
                    ''u'' exampleRules exampleData ''api'' ''secret'')) \<and>
   (\<exists>t. exampleAuth ''u'' ''secret'' = Promise t (Inr (authOf (archivePage ''api'' ''jwt'' ''abc'')))) \<and>
   failingAuth ''u'' ''secret'' = Promise 3 (Inl (Error ''no credential'')) \<and>
   triggerActions failingAuth exampleParse exampleIsValid exampleCapability
     ''u'' exampleRules exampleData ''api'' ''secret'' =
     (Promise 3 (Inl (Error ''no credential'')), [AuthRequested ''u'' ''secret''])"
proof -
  have call: "Invoked (archivePage ''api'' ''jwt'' ''abc'')
     \<in> set (snd (triggerActions exampleAuth exampleParse exampleIsValid exampleCapability
                    ''u'' exampleRules exampleData ''api'' ''secret''))"
    by (simp add: example_run exampleTrace_def)
  have fail: "failingAuth ''u'' ''secret'' = Promise 3 (Inl (Error ''no credential''))"
    by (simp add: failingAuth_def)
  note ok = credential_acquired_once [of exampleAuth exampleParse exampleIsValid
      exampleCapability "''u''" exampleRules exampleData "''api''" "''secret''"]
  note ko = credential_acquired_once [of failingAuth exampleParse exampleIsValid
      exampleCapability "''u''" exampleRules exampleData "''api''" "''secret''"]
  from ok have a: "\<exists>rest. snd (triggerActions exampleAuth exampleParse exampleIsValid
      exampleCapability ''u'' exampleRules exampleData ''api'' ''secret'') =
             AuthRequested ''u'' ''secret'' # rest \<and> \<not> list_ex isAuthRequest rest"
    by blast
  from ok call have b: "\<exists>t. exampleAuth ''u'' ''secret'' =
      Promise t (Inr (authOf (archivePage ''api'' ''jwt'' ''abc'')))"
    by blast
  from ko fail have c: "triggerActions failingAuth exampleParse exampleIsValid exampleCapability
     ''u'' exampleRules exampleData ''api'' ''secret'' =
     (Promise 3 (Inl (Error ''no credential'')), [AuthRequested ''u'' ''secret''])"
    by blast
  from a call b fail c show ?thesis by blast
qed

text \<open>
  C4. In a dispatch that gets its credential and whose matcher returns on every rule,
  for an action of a matching rule: \<open>AddLabel\<close> calls \<^verbatim>\<open>addLabels\<close> exactly when the
  event has an item identifier and the parameters are not empty; \<open>Archive\<close> and
  \<open>MarkAsRead\<close> call \<^verbatim>\<open>archivePage\<close> and \<^verbatim>\<open>markPageAsRead\<close> exactly when the
  event has an item identifier; \<open>SendNotification\<close> always calls
  \<^verbatim>\<open>sendNotification\<close> with the fixed message; an action whose precondition fails
  writes its diagnostic line instead. An identifier that is the empty string counts as
  absent, as the test \<^verbatim>\<open>!data.id\<close> has it.
\<close>

theorem action_preconditions:
  assumes auth: "getAuthToken userId jwtSecret = Promise t (Inr authToken)"
    and returns: "\<forall>r\<in>set rules. \<exists>b. fst (isValidData parse isValid (filter_text r) data []) = Inr b"
    and rule: "rule \<in> set rules"
    and matches: "fst (isValidData parse isValid (filter_text rule) data []) = Inr True"
    and action: "action \<in> set (actions rule)"
    and tr: "tr = snd (triggerActions getAuthToken parse isValid capability
                         userId rules data apiEndpoint jwtSecret)"
  shows "(action_type action = AddLabel \<longrightarrow>
            (Invoked (addLabels apiEndpoint authToken pageId (params action)) \<in> set tr \<longleftrightarrow>
               data_id data = Some pageId \<and> pageId \<noteq> [] \<and> params action \<noteq> []) \<and>
            (\<not> truthy (data_id data) \<or> params action = [] \<longrightarrow>
               ConsoleLog ''invalid data for add label action'' \<in> set tr)) \<and>
         (action_type action = Archive \<longrightarrow>
            (Invoked (archivePage apiEndpoint authToken pageId) \<in> set tr \<longleftrightarrow>
               data_id data = Some pageId \<and> pageId \<noteq> []) \<and>
            (\<not> truthy (data_id data) \<longrightarrow>
               ConsoleLog ''invalid data for archive action'' \<in> set tr)) \<and>
         (action_type action = MarkAsRead \<longrightarrow>
            (Invoked (markPageAsRead apiEndpoint authToken pageId) \<in> set tr \<longleftrightarrow>
               data_id data = Some pageId \<and> pageId \<noteq> []) \<and>
            (\<not> truthy (data_id data) \<longrightarrow>
               ConsoleLog ''invalid data for mark as read action'' \<in> set tr)) \<and>
         (action_type action = SendNotification \<longrightarrow>
            Invoked (sendNotification apiEndpoint authToken ''New page added to your feed'')
              \<in> set tr)"
proof -
  let ?ev = "\<lambda>a. snd (triggerAction capability apiEndpoint authToken data a [])"
  from arg_cong [OF dispatch_joined [of getAuthToken userId jwtSecret t authToken rules parse
      isValid data capability apiEndpoint, OF auth returns], of snd] tr
  have tr': "tr = AuthRequested userId jwtSecret #
      concat (map (\<lambda>r. snd (triggerRule parse isValid capability apiEndpoint authToken data r []))
                rules)"
    by simp
  have inv: "Invoked c \<in> set tr \<longleftrightarrow>
      (\<exists>r\<in>set rules. fst (isValidData parse isValid (filter_text r) data []) = Inr True \<and>
         (\<exists>a\<in>set (actions r). Invoked c \<in> set (?ev a)))" for c
    unfolding tr' by (auto simp: invoked_in_rule)
  have log: "ConsoleLog m \<in> set tr \<longleftrightarrow>
      (\<exists>r\<in>set rules. fst (isValidData parse isValid (filter_text r) data []) = Inr True \<and>
         (\<exists>a\<in>set (actions r). ConsoleLog m \<in> set (?ev a)))" for m
    unfolding tr' by (auto simp: logged_in_rule)
  have own_inv: "Invoked c \<in> set (?ev action) \<Longrightarrow> Invoked c \<in> set tr" for c
    using rule matches action inv by blast
  have own_log: "ConsoleLog m \<in> set (?ev action) \<Longrightarrow> ConsoleLog m \<in> set tr" for m
    using rule matches action log by blast
  have a1: "Invoked (addLabels apiEndpoint authToken pageId (params action)) \<in> set tr \<longleftrightarrow>
            data_id data = Some pageId \<and> pageId \<noteq> [] \<and> params action \<noteq> []"
    if "action_type action = AddLabel"
  proof
    assume "Invoked (addLabels apiEndpoint authToken pageId (params action)) \<in> set tr"
    then obtain a where
      "Invoked (addLabels apiEndpoint authToken pageId (params action)) \<in> set (?ev a)"
      using inv by blast
    then show "data_id data = Some pageId \<and> pageId \<noteq> [] \<and> params action \<noteq> []"
      by (auto simp: invoked_in_action split: RuleActionType.splits)
  next
    assume "data_id data = Some pageId \<and> pageId \<noteq> [] \<and> params action \<noteq> []"
    with that have
      "Invoked (addLabels apiEndpoint authToken pageId (params action)) \<in> set (?ev action)"
      by (simp add: invoked_in_action)
    then show "Invoked (addLabels apiEndpoint authToken pageId (params action)) \<in> set tr"
      by (rule own_inv)
  qed
  have a2: "ConsoleLog ''invalid data for add label action'' \<in> set tr"
    if "action_type action = AddLabel" "\<not> truthy (data_id data) \<or> params action = []"
    using that by (intro own_log) (simp add: logged_in_action)
  have b1: "Invoked (archivePage apiEndpoint authToken pageId) \<in> set tr \<longleftrightarrow>
            data_id data = Some pageId \<and> pageId \<noteq> []"
    if "action_type action = Archive"
  proof
    assume "Invoked (archivePage apiEndpoint authToken pageId) \<in> set tr"
    then obtain a where "Invoked (archivePage apiEndpoint authToken pageId) \<in> set (?ev a)"
      using inv by blast
    then show "data_id data = Some pageId \<and> pageId \<noteq> []"
      by (auto simp: invoked_in_action split: RuleActionType.splits)
  next
    assume "data_id data = Some pageId \<and> pageId \<noteq> []"
    with that have "Invoked (archivePage apiEndpoint authToken pageId) \<in> set (?ev action)"
      by (simp add: invoked_in_action)
    then show "Invoked (archivePage apiEndpoint authToken pageId) \<in> set tr"
      by (rule own_inv)
  qed
  have b2: "ConsoleLog ''invalid data for archive action'' \<in> set tr"
    if "action_type action = Archive" "\<not> truthy (data_id data)"
    using that by (intro own_log) (simp add: logged_in_action)
  have c1: "Invoked (markPageAsRead apiEndpoint authToken pageId) \<in> set tr \<longleftrightarrow>
            data_id data = Some pageId \<and> pageId \<noteq> []"
    if "action_type action = MarkAsRead"
  proof
    assume "Invoked (markPageAsRead apiEndpoint authToken pageId) \<in> set tr"
    then obtain a where "Invoked (markPageAsRead apiEndpoint authToken pageId) \<in> set (?ev a)"
      using inv by blast
    then show "data_id data = Some pageId \<and> pageId \<noteq> []"
      by (auto simp: invoked_in_action split: RuleActionType.splits)
  next
    assume "data_id data = Some pageId \<and> pageId \<noteq> []"
    with that have "Invoked (markPageAsRead apiEndpoint authToken pageId) \<in> set (?ev action)"
      by (simp add: invoked_in_action)
    then show "Invoked (markPageAsRead apiEndpoint authToken pageId) \<in> set tr"
      by (rule own_inv)
  qed
  have c2: "ConsoleLog ''invalid data for mark as read action'' \<in> set tr"
    if "action_type action = MarkAsRead" "\<not> truthy (data_id data)"
    using that by (intro own_log) (simp add: logged_in_action)
  have d1: "Invoked (sendNotification apiEndpoint authToken ''New page added to your feed'')
              \<in> set tr"
    if "action_type action = SendNotification"
    using that by (intro own_inv) (simp add: invoked_in_action)
  from a1 a2 b1 b2 c1 c2 d1 show ?thesis by blast
qed

theorem action_preconditions_witness:
  "exampleAuth ''u'' ''secret'' = Promise 3 (Inr ''jwt'') \<and>
   map (\<lambda>r. fst (isValidData exampleParse exampleIsValid (filter_text r) exampleData []))
     exampleRules = [Inr True, Inr False] \<and>
   hd exampleRules \<in> set exampleRules \<and>
   fst (isValidData exampleParse exampleIsValid (filter_text (hd exampleRules)) exampleData [])
     = Inr True \<and>
   actions (hd exampleRules) =
     [\<lparr>action_type = AddLabel, params = [''todo'']\<rparr>,
      \<lparr>action_type = SendNotification, params = []\<rparr>,
      \<lparr>action_type = Archive, params = []\<rparr>,
      \<lparr>action_type = MarkAsRead, params = []\<rparr>,
      \<lparr>action_type = AddLabel, params = []\<rparr>] \<and>
   Invoked (addLabels ''api'' ''jwt'' ''abc'' [''todo''])
     \<in> set (snd (triggerActions exampleAuth exampleParse exampleIsValid exampleCapability
                    ''u'' exampleRules exampleData ''api'' ''secret'')) \<and>
   Invoked (sendNotification ''api'' ''jwt'' ''New page added to your feed'')
     \<in> set (snd (triggerActions exampleAuth exampleParse exampleIsValid exampleCapability
                    ''u'' exampleRules exampleData ''api'' ''secret'')) \<and>
   Invoked (archivePage ''api'' ''jwt'' ''abc'')
     \<in> set (snd (triggerActions exampleAuth exampleParse exampleIsValid exampleCapability
                    ''u'' exampleRules exampleData ''api'' ''secret'')) \<and>
   Invoked (markPageAsRead ''api'' ''jwt'' ''abc'')
     \<in> set (snd (triggerActions exampleAuth exampleParse exampleIsValid exampleCapability
                    ''u'' exampleRules exampleData ''api'' ''secret'')) \<and>
   Invoked (addLabels ''api'' ''jwt'' ''abc'' [])
     \<notin> set (snd (triggerActions exampleAuth exampleParse exampleIsValid exampleCapability
                    ''u'' exampleRules exampleData ''api'' ''secret'')) \<and>
   ConsoleLog ''invalid data for add label action''
     \<in> set (snd (triggerActions exampleAuth exampleParse exampleIsValid exampleCapability
                    ''u'' exampleRules exampleData ''api'' ''secret''))"
proof -
  let ?tr = "snd (triggerActions exampleAuth exampleParse exampleIsValid exampleCapability
                    ''u'' exampleRules exampleData ''api'' ''secret'')"
  have rule: "hd exampleRules \<in> set exampleRules"
    by (simp add: exampleRules_def)
  have matches: "fst (isValidData exampleParse exampleIsValid (filter_text (hd exampleRules))
                   exampleData []) = Inr True"
    by (simp add: exampleRules_def exampleRule_def example_matches)
  have acts: "actions (hd exampleRules) =
       [\<lparr>action_type = AddLabel, params = [''todo'']\<rparr>,
        \<lparr>action_type = SendNotification, params = []\<rparr>,
        \<lparr>action_type = Archive, params = []\<rparr>,
        \<lparr>action_type = MarkAsRead, params = []\<rparr>,
        \<lparr>action_type = AddLabel, params = []\<rparr>]"
    by (simp add: exampleRules_def exampleRule_def)
  have id: "data_id exampleData = Some ''abc''"
    by (simp add: exampleData_def)
  note inst = action_preconditions [where getAuthToken = exampleAuth and userId = "''u''"
      and jwtSecret = "''secret''" and t = 3 and authToken = "''jwt''" and rules = exampleRules
      and parse = exampleParse and isValid = exampleIsValid and data = exampleData
      and rule = "hd exampleRules" and capability = exampleCapability
      and apiEndpoint = "''api''" and pageId = "''abc''" and tr = ?tr,
      OF example_auth example_returns rule matches _ refl]
  from inst [of "\<lparr>action_type = AddLabel, params = [''todo'']\<rparr>"] acts id
  have a: "Invoked (addLabels ''api'' ''jwt'' ''abc'' [''todo'']) \<in> set ?tr" by simp
  from inst [of "\<lparr>action_type = SendNotification, params = []\<rparr>"] acts id
  have b: "Invoked (sendNotification ''api'' ''jwt'' ''New page added to your feed'') \<in> set ?tr"
    by simp
  from inst [of "\<lparr>action_type = Archive, params = []\<rparr>"] acts id
  have c: "Invoked (archivePage ''api'' ''jwt'' ''abc'') \<in> set ?tr" by simp
  from inst [of "\<lparr>action_type = MarkAsRead, params = []\<rparr>"] acts id
  have d: "Invoked (markPageAsRead ''api'' ''jwt'' ''abc'') \<in> set ?tr" by simp
  from inst [of "\<lparr>action_type = AddLabel, params = []\<rparr>"] acts id
  have e: "Invoked (addLabels ''api'' ''jwt'' ''abc'' []) \<notin> set ?tr"
    and f: "ConsoleLog ''invalid data for add label action'' \<in> set ?tr" by simp_all
  from example_auth example_verdicts rule matches acts a b c d e f show ?thesis by simp
qed

text \<open>
  C1, as stated, fails. In the example dispatch four actions are attempted; the
  notification is rejected at time 5, the three others are fulfilled at time 8. The
  dispatch is rejected at time 5 with the error of the notification alone: it neither
  waits for the others nor reports an outcome for each action.
\<close>

theorem dispatch_rejects_on_first_failure:
  "triggerActions exampleAuth exampleParse exampleIsValid exampleCapability
     ''u'' exampleRules exampleData ''api'' ''secret'' =
     (Promise 5 (Inl (Error ''notification failed'')),
      [AuthRequested ''u'' ''secret'',
       Invoked (addLabels ''api'' ''jwt'' ''abc'' [''todo'']),
       Invoked (sendNotification ''api'' ''jwt'' ''New page added to your feed''),
       Invoked (archivePage ''api'' ''jwt'' ''abc''),
       Invoked (markPageAsRead ''api'' ''jwt'' ''abc''),
       ConsoleLog ''invalid data for add label action'']) \<and>
   launched exampleCapability []
     (snd (triggerActions exampleAuth exampleParse exampleIsValid exampleCapability
             ''u'' exampleRules exampleData ''api'' ''secret'')) =
     [Promise 8 (Inr ''ok''), Promise 5 (Inl (Error ''notification failed'')),
      Promise 8 (Inr ''ok''), Promise 8 (Inr ''ok'')]"
  using example_launched by (simp add: example_run) (simp add: exampleTrace_def)

text \<open>
  C1, as amended. A dispatch that gets its credential and whose matcher returns on
  every rule joins the promises of its capability calls as \<^verbatim>\<open>Promise.all\<close> does.
  When all of them are fulfilled, the dispatch is fulfilled with their values, one for
  each call and in the order of the calls, not before the last of them has settled.
  When one of them is rejected, the dispatch is rejected with the error of the call
  that is rejected first, at the time of that rejection. Which calls are made does not
  depend on how any of them settles.
\<close>

theorem dispatch_joins_with_promise_all:
  assumes auth: "G u s = Promise t (Inr tok)"
    and returns: "\<forall>r\<in>set rules. \<exists>b. fst (isValidData P V (filter_text r) d []) = Inr b"
    and run: "triggerActions G P V C u rules d api s = (res, tr)"
  shows "((\<forall>p\<in>set (launched C [] tr). \<exists>v. outcome p = Inr v) \<longrightarrow>
            (\<exists>vs. outcome res = Inr vs \<and> map Inr vs = map outcome (launched C [] tr)) \<and>
            (\<forall>p\<in>set (launched C [] tr). settledAt p \<le> settledAt res)) \<and>
         ((\<exists>p\<in>set (launched C [] tr). \<exists>e. outcome p = Inl e) \<longrightarrow>
            (\<exists>p\<in>set (launched C [] tr). \<exists>e. outcome p = Inl e \<and>
               res = Promise (max t (settledAt p)) (Inl e) \<and>
               (\<forall>q\<in>set (launched C [] tr). \<forall>e'. outcome q = Inl e' \<longrightarrow>
                  settledAt p \<le> settledAt q))) \<and>
         tr = snd (triggerActions G P V C' u rules d api s)"
proof (intro conjI impI)
  let ?ps = "launched C [] tr"
  from dispatch_trace_indep [of G u s t tok rules P V d C api C'] auth returns run
  show "tr = snd (triggerActions G P V C' u rules d api s)" by simp
  from dispatch_joined [of G u s t tok rules P V d C api] auth returns run
  have res: "res = promiseAll t ?ps" by simp
  {
    assume all: "\<forall>p\<in>set ?ps. \<exists>v. outcome p = Inr v"
    then have none: "firstRejection ?ps = None" by (simp add: firstRejection_None)
    with res have r: "res = Promise (foldr max (map settledAt ?ps) t) (Inr (fulfilledValues ?ps))"
      by (simp add: promiseAll_def)
    from r fulfilledValues_all [OF all]
    show "\<exists>vs. outcome res = Inr vs \<and> map Inr vs = map outcome ?ps" by simp
    from r foldr_max_ge [of t ?ps]
    show "\<forall>p\<in>set ?ps. settledAt p \<le> settledAt res" by simp
  }
  {
    assume "\<exists>p\<in>set ?ps. \<exists>e. outcome p = Inl e"
    then obtain p e where "p \<in> set ?ps" "outcome p = Inl e" by blast
    then have "\<not> (\<forall>p\<in>set ?ps. \<exists>v. outcome p = Inr v)" by force
    then have "firstRejection ?ps \<noteq> None" by (simp only: firstRejection_None not_False_eq_True)
    then obtain t' e where some: "firstRejection ?ps = Some (t', e)" by (cases "firstRejection ?ps") auto
    from firstRejection_Some [OF some]
    have mem: "Promise t' (Inl e) \<in> set ?ps"
      and least: "\<forall>q\<in>set ?ps. \<forall>e'. outcome q = Inl e' \<longrightarrow> t' \<le> settledAt q" by simp_all
    from res some have "res = Promise (max t t') (Inl e)" by (simp add: promiseAll_def)
    with mem least
    show "\<exists>p\<in>set ?ps. \<exists>e. outcome p = Inl e \<and> res = Promise (max t (settledAt p)) (Inl e) \<and>
               (\<forall>q\<in>set ?ps. \<forall>e'. outcome q = Inl e' \<longrightarrow> settledAt p \<le> settledAt q)"
      by (intro bexI [of _ "Promise t' (Inl e)"]) auto
  }
qed

theorem dispatch_joins_with_promise_all_witness:
  "exampleAuth ''u'' ''secret'' = Promise 3 (Inr ''jwt'') \<and>
   map (\<lambda>r. fst (isValidData exampleParse exampleIsValid (filter_text r) exampleData []))
     exampleRules = [Inr True, Inr False] \<and>
   triggerActions exampleAuth exampleParse exampleIsValid okCapability
     ''u'' exampleRules exampleData ''api'' ''secret'' =
     (Promise 8 (Inr [''ok'', ''ok'', ''ok'', ''ok'']), exampleTrace) \<and>
   map outcome (launched okCapability [] exampleTrace) =
     [Inr ''ok'', Inr ''ok'', Inr ''ok'', Inr ''ok''] \<and>
   list_all (\<lambda>p. settledAt p \<le> settledAt (Promise 8 (Inr [''ok'', ''ok'', ''ok'', ''ok''])))
     (launched okCapability [] exampleTrace) \<and>
   triggerActions exampleAuth exampleParse exampleIsValid exampleCapability
     ''u'' exampleRules exampleData ''api'' ''secret'' =
     (Promise 5 (Inl (Error ''notification failed'')), exampleTrace) \<and>
   (\<exists>p\<in>set (launched exampleCapability [] exampleTrace). \<exists>e. outcome p = Inl e) \<and>
   (\<exists>p\<in>set (launched exampleCapability [] exampleTrace). \<exists>e. outcome p = Inl e \<and>
      Promise 5 (Inl (Error ''notification failed'')) = Promise (max 3 (settledAt p)) (Inl e) \<and>
      (\<forall>q\<in>set (launched exampleCapability [] exampleTrace). \<forall>e'. outcome q = Inl e' \<longrightarrow>
         settledAt p \<le> settledAt q)) \<and>
   exampleTrace = snd (triggerActions exampleAuth exampleParse exampleIsValid okCapability
                         ''u'' exampleRules exampleData ''api'' ''secret'')"
proof -
  have all: "\<forall>p\<in>set (launched okCapability [] exampleTrace). \<exists>v. outcome p = Inr v"
    by (simp add: example_launched_ok)
  have some: "\<exists>p\<in>set (launched exampleCapability [] exampleTrace). \<exists>e. outcome p = Inl e"
    by (simp add: example_launched)
  from dispatch_joins_with_promise_all [of exampleAuth "''u''" "''secret''" 3 "''jwt''"
      exampleRules exampleParse exampleIsValid exampleData okCapability "''api''"
      "Promise 8 (Inr [''ok'', ''ok'', ''ok'', ''ok''])" exampleTrace]
    example_auth example_returns example_run_ok all
  have a: "\<forall>p\<in>set (launched okCapability [] exampleTrace).
      settledAt p \<le> settledAt (Promise 8 (Inr [''ok'', ''ok'', ''ok'', ''ok'']))"
    by blast
  from dispatch_joins_with_promise_all [of exampleAuth "''u''" "''secret''" 3 "''jwt''"
      exampleRules exampleParse exampleIsValid exampleData exampleCapability "''api''"
      "Promise 5 (Inl (Error ''notification failed''))" exampleTrace okCapability]
    example_auth example_returns example_run some
  have b: "\<exists>p\<in>set (launched exampleCapability [] exampleTrace). \<exists>e. outcome p = Inl e \<and>
      Promise 5 (Inl (Error ''notification failed'')) = Promise (max 3 (settledAt p)) (Inl e) \<and>
      (\<forall>q\<in>set (launched exampleCapability [] exampleTrace). \<forall>e'. outcome q = Inl e' \<longrightarrow>
         settledAt p \<le> settledAt q)"
    by blast
  from dispatch_joins_with_promise_all [of exampleAuth "''u''" "''secret''" 3 "''jwt''"
      exampleRules exampleParse exampleIsValid exampleData exampleCapability "''api''"
      "Promise 5 (Inl (Error ''notification failed''))" exampleTrace okCapability]
    example_auth example_returns example_run
  have c: "exampleTrace = snd (triggerActions exampleAuth exampleParse exampleIsValid okCapability
                         ''u'' exampleRules exampleData ''api'' ''secret'')"
    by blast
  from a have a': "list_all
      (\<lambda>p. settledAt p \<le> settledAt (Promise 8 (Inr [''ok'', ''ok'', ''ok'', ''ok''])))
      (launched okCapability [] exampleTrace)"
    by (simp only: list_all_iff)
  have outs: "map outcome (launched okCapability [] exampleTrace) =
     [Inr ''ok'', Inr ''ok'', Inr ''ok'', Inr ''ok'']"
    by (simp add: example_launched_ok)
  from example_auth example_verdicts example_run_ok outs a' example_run some b c
  show ?thesis by blast
qed

end
